theory Spec2Isabelle
  imports Main
begin

section \<open>Raw storage, objects and the history of a run\<close>

text \<open>
  The repository is one header, \<^verbatim>\<open>advanced-vector/vector.h\<close>: a class template
  \<^verbatim>\<open>RawMemory<T>\<close> that owns uninitialised storage, and a class template
  \<^verbatim>\<open>Vector<T>\<close> that builds and destroys objects in it.

  A piece of storage for \<open>n\<close> objects is a list of \<open>n\<close> slots. A slot is either raw memory
  or holds a live object of the element type. Placement \<^verbatim>\<open>new\<close> turns a raw slot into
  a live one, a destructor call turns a live slot into a raw one.
\<close>

datatype 'a slot = Raw | Live 'a

text \<open>
  What the element type and the allocator did during a run is recorded as a list of events,
  in the order in which they happened (the role that a counting element type plays in a
  test). \<open>Allocated n\<close> says that \<^verbatim>\<open>operator new\<close> returned a block with room for \<open>n\<close>
  objects; \<open>Deallocated m\<close> says that \<^verbatim>\<open>operator delete\<close> released a block whose
  slots were \<open>m\<close> at that moment: a live slot in \<open>m\<close> is an object whose destructor never
  ran.
\<close>

datatype 'a event =
    Allocated nat
  | Deallocated "'a slot list"
  | DefaultConstructed 'a
  | Copied 'a
  | Moved 'a
  | Constructed 'a
  | CopyAssigned 'a
  | MoveAssigned 'a
  | Destroyed 'a

text \<open>
  The template parameter \<^verbatim>\<open>T\<close> and \<^verbatim>\<open>operator new\<close> are parameters of the model.
  \<open>sizeof_T\<close> is \<^verbatim>\<open>sizeof(T)\<close>, the size of an object in bytes; \<open>new_throws\<close> says
  whether \<^verbatim>\<open>operator new\<close> throws, given the history and the number of bytes asked for.
  Each operation of \<^verbatim>\<open>T\<close> that may throw comes with a predicate that says whether it
  throws, given the history so far and the objects it is applied to; a copy yields an
  object equal to its source; a move yields the value of its source and leaves
  \<open>moved_from\<close> of it behind; an operation that throws changes nothing; destructors do
  not throw. The two booleans are the type traits that the \<^verbatim>\<open>if constexpr\<close> of the
  source asks for. (A type whose move constructor is declared \<^verbatim>\<open>noexcept\<close> and throws
  all the same ends the program; nothing below depends on how the traits relate to the
  predicates.)
\<close>

record 'a env =
  sizeof_T :: nat
  new_throws :: "'a event list \<Rightarrow> nat \<Rightarrow> bool"
  default_value :: 'a
  default_throws :: "'a event list \<Rightarrow> bool"
  copy_throws :: "'a event list \<Rightarrow> 'a \<Rightarrow> bool"
  move_throws :: "'a event list \<Rightarrow> 'a \<Rightarrow> bool"
  moved_from :: "'a \<Rightarrow> 'a"
  copy_assign_throws :: "'a event list \<Rightarrow> 'a \<Rightarrow> 'a \<Rightarrow> bool"
  move_assign_throws :: "'a event list \<Rightarrow> 'a \<Rightarrow> 'a \<Rightarrow> bool"
  is_nothrow_move_constructible :: bool
  is_copy_constructible :: bool

datatype exn = bad_alloc | element_exn

text \<open>
  A call returns, or throws and leaves a state behind, or has undefined behaviour (a read
  of raw memory, an access outside the block or through a dangling pointer, a failed
  \<^verbatim>\<open>assert\<close>, a release of a pointer that \<^verbatim>\<open>operator new\<close> never returned or that
  has been released before).
\<close>

datatype ('r, 's) outcome = Return 'r | Throw exn 's | Undefined

definition object_at :: "'a slot list \<Rightarrow> nat \<Rightarrow> 'a option" where
  "object_at m p = (if p < length m then (case m ! p of Raw \<Rightarrow> None | Live x \<Rightarrow> Some x) else None)"

text \<open>
  The argument list of a constructor call \<^verbatim>\<open>T(std::forward<Args>(args)...)\<close>: one
  lvalue of type \<^verbatim>\<open>T\<close> (a copy), one rvalue (a move), or anything else, which
  builds some object or throws. The arguments are references. Every operation reads them
  in its first constructor call, before it has changed any element, so an argument that
  is only read is given by the value it has at the call, wherever the object lives. An
  rvalue is also written: the move leaves \<open>moved_from\<close> of it behind. It refers either to
  an object outside the vector, which is not part of the state, or to the element
  \<^verbatim>\<open>data_[i]\<close> of the vector itself, as in \<^verbatim>\<open>v.PushBack(std::move(v[0]))\<close>.
\<close>

datatype 'a rvalue = Object 'a | Element nat

datatype 'a ctor_args = Copy_arg 'a | Move_arg "'a rvalue" | Other_args "'a option"

text \<open>
  The constructor call on the argument list, with the block \<open>m\<close> of the vector: it gives
  the new object, the block afterwards and the event, or throws and changes nothing.
\<close>

definition construct ::
  "'a env \<Rightarrow> 'a ctor_args \<Rightarrow> 'a slot list \<Rightarrow> 'a event list
     \<Rightarrow> ('a \<times> 'a slot list \<times> 'a event, unit) outcome" where
  "construct E a m tr =
     (case a of
        Copy_arg x \<Rightarrow> if copy_throws E tr x then Throw element_exn () else Return (x, m, Copied x)
      | Move_arg r \<Rightarrow>
          (case r of
             Object x \<Rightarrow>
               if move_throws E tr x then Throw element_exn () else Return (x, m, Moved x)
           | Element i \<Rightarrow>
               (case object_at m i of
                  None \<Rightarrow> Undefined
                | Some x \<Rightarrow>
                    if move_throws E tr x then Throw element_exn ()
                    else Return (x, m[i := Live (moved_from E x)], Moved x)))
      | Other_args r \<Rightarrow>
          (case r of None \<Rightarrow> Throw element_exn () | Some x \<Rightarrow> Return (x, m, Constructed x)))"

text \<open>
  Placement \<^verbatim>\<open>new\<close> at offset \<open>p\<close>. In a slot that holds an object it ends the life of
  that object without a destructor call.
\<close>

definition construct_at :: "'a slot list \<Rightarrow> nat \<Rightarrow> 'a \<Rightarrow> 'a slot list option" where
  "construct_at m p x = (if p < length m then Some (m[p := Live x]) else None)"

section \<open>The algorithms of the standard library that the header calls\<close>

text \<open>
  Pointers into a block are offsets. Every algorithm takes the block (or blocks) it works
  on and the history, and gives them back. \<open>None\<close> is undefined behaviour.
\<close>

definition destroy_at :: "nat \<Rightarrow> 'a slot list \<Rightarrow> 'a event list \<Rightarrow> ('a slot list \<times> 'a event list) option" where
  "destroy_at p m tr =
     (case object_at m p of None \<Rightarrow> None | Some x \<Rightarrow> Some (m[p := Raw], tr @ [Destroyed x]))"

fun destroy_n :: "nat \<Rightarrow> nat \<Rightarrow> 'a slot list \<Rightarrow> 'a event list \<Rightarrow> ('a slot list \<times> 'a event list) option" where
  "destroy_n first 0 m tr = Some (m, tr)"
| "destroy_n first (Suc n) m tr =
     (case destroy_at first m tr of
        None \<Rightarrow> None
      | Some (m', tr') \<Rightarrow> destroy_n (Suc first) n m' tr')"

text \<open>
  The three \<^verbatim>\<open>uninitialized_\<close> algorithms build objects from \<open>d_first\<close> on; \<open>cur\<close> is the
  next slot to fill. When a constructor throws they destroy what they have built, the
  slots from \<open>d_first\<close> up to \<open>cur\<close>, and rethrow.
\<close>

fun value_construct_loop ::
  "'a env \<Rightarrow> nat \<Rightarrow> nat \<Rightarrow> nat \<Rightarrow> 'a slot list \<Rightarrow> 'a event list
     \<Rightarrow> ('a slot list \<times> 'a event list, 'a slot list \<times> 'a event list) outcome" where
  "value_construct_loop E d_first cur 0 m tr = Return (m, tr)"
| "value_construct_loop E d_first cur (Suc n) m tr =
     (if default_throws E tr
      then (case destroy_n d_first (cur - d_first) m tr of
              None \<Rightarrow> Undefined
            | Some s \<Rightarrow> Throw element_exn s)
      else (case construct_at m cur (default_value E) of
              None \<Rightarrow> Undefined
            | Some m' \<Rightarrow>
                value_construct_loop E d_first (Suc cur) n m'
                  (tr @ [DefaultConstructed (default_value E)])))"

definition uninitialized_value_construct_n ::
  "'a env \<Rightarrow> nat \<Rightarrow> nat \<Rightarrow> 'a slot list \<Rightarrow> 'a event list
     \<Rightarrow> ('a slot list \<times> 'a event list, 'a slot list \<times> 'a event list) outcome" where
  "uninitialized_value_construct_n E d_first n m tr = value_construct_loop E d_first d_first n m tr"

fun copy_construct_loop ::
  "'a env \<Rightarrow> 'a slot list \<Rightarrow> nat \<Rightarrow> nat \<Rightarrow> nat \<Rightarrow> nat \<Rightarrow> 'a slot list \<Rightarrow> 'a event list
     \<Rightarrow> ('a slot list \<times> 'a event list, 'a slot list \<times> 'a event list) outcome" where
  "copy_construct_loop E src first 0 d_first cur m tr = Return (m, tr)"
| "copy_construct_loop E src first (Suc n) d_first cur m tr =
     (case object_at src first of
        None \<Rightarrow> Undefined
      | Some x \<Rightarrow>
          if copy_throws E tr x
          then (case destroy_n d_first (cur - d_first) m tr of
                  None \<Rightarrow> Undefined
                | Some s \<Rightarrow> Throw element_exn s)
          else (case construct_at m cur x of
                  None \<Rightarrow> Undefined
                | Some m' \<Rightarrow>
                    copy_construct_loop E src (Suc first) n d_first (Suc cur) m' (tr @ [Copied x])))"

definition uninitialized_copy_n ::
  "'a env \<Rightarrow> 'a slot list \<Rightarrow> nat \<Rightarrow> nat \<Rightarrow> 'a slot list \<Rightarrow> nat \<Rightarrow> 'a event list
     \<Rightarrow> ('a slot list \<times> 'a event list, 'a slot list \<times> 'a event list) outcome" where
  "uninitialized_copy_n E src first n m d_first tr = copy_construct_loop E src first n d_first d_first m tr"

text \<open>A move also changes its source, so the source block is part of the state.\<close>

fun move_construct_loop ::
  "'a env \<Rightarrow> nat \<Rightarrow> nat \<Rightarrow> nat \<Rightarrow> nat \<Rightarrow> 'a slot list \<Rightarrow> 'a slot list \<Rightarrow> 'a event list
     \<Rightarrow> ('a slot list \<times> 'a slot list \<times> 'a event list,
         'a slot list \<times> 'a slot list \<times> 'a event list) outcome" where
  "move_construct_loop E first 0 d_first cur src m tr = Return (src, m, tr)"
| "move_construct_loop E first (Suc n) d_first cur src m tr =
     (case object_at src first of
        None \<Rightarrow> Undefined
      | Some x \<Rightarrow>
          if move_throws E tr x
          then (case destroy_n d_first (cur - d_first) m tr of
                  None \<Rightarrow> Undefined
                | Some (m', tr') \<Rightarrow> Throw element_exn (src, m', tr'))
          else (case construct_at m cur x of
                  None \<Rightarrow> Undefined
                | Some m' \<Rightarrow>
                    move_construct_loop E (Suc first) n d_first (Suc cur)
                      (src[first := Live (moved_from E x)]) m' (tr @ [Moved x])))"

definition uninitialized_move_n ::
  "'a env \<Rightarrow> 'a slot list \<Rightarrow> nat \<Rightarrow> nat \<Rightarrow> 'a slot list \<Rightarrow> nat \<Rightarrow> 'a event list
     \<Rightarrow> ('a slot list \<times> 'a slot list \<times> 'a event list,
         'a slot list \<times> 'a slot list \<times> 'a event list) outcome" where
  "uninitialized_move_n E src first n m d_first tr = move_construct_loop E first n d_first d_first src m tr"

text \<open>
  \<^verbatim>\<open>std::copy\<close> assigns from another block; \<^verbatim>\<open>std::move\<close> and
  \<^verbatim>\<open>std::move_backward\<close> move-assign inside one block, front to back and back to
  front. A range whose end lies before its start is undefined.
\<close>

fun copy_assign_loop ::
  "'a env \<Rightarrow> 'a slot list \<Rightarrow> nat \<Rightarrow> nat \<Rightarrow> nat \<Rightarrow> 'a slot list \<Rightarrow> 'a event list
     \<Rightarrow> ('a slot list \<times> 'a event list, 'a slot list \<times> 'a event list) outcome" where
  "copy_assign_loop E src first 0 d m tr = Return (m, tr)"
| "copy_assign_loop E src first (Suc n) d m tr =
     (case (object_at src first, object_at m d) of
        (Some x, Some y) \<Rightarrow>
          if copy_assign_throws E tr y x then Throw element_exn (m, tr)
          else copy_assign_loop E src (Suc first) n (Suc d) (m[d := Live x]) (tr @ [CopyAssigned x])
      | _ \<Rightarrow> Undefined)"

definition std_copy ::
  "'a env \<Rightarrow> 'a slot list \<Rightarrow> nat \<Rightarrow> nat \<Rightarrow> 'a slot list \<Rightarrow> nat \<Rightarrow> 'a event list
     \<Rightarrow> ('a slot list \<times> 'a event list, 'a slot list \<times> 'a event list) outcome" where
  "std_copy E src first last_p m d_first tr =
     (if first \<le> last_p then copy_assign_loop E src first (last_p - first) d_first m tr else Undefined)"

fun move_assign_loop ::
  "'a env \<Rightarrow> nat \<Rightarrow> nat \<Rightarrow> nat \<Rightarrow> 'a slot list \<Rightarrow> 'a event list
     \<Rightarrow> ('a slot list \<times> 'a event list, 'a slot list \<times> 'a event list) outcome" where
  "move_assign_loop E first 0 d m tr = Return (m, tr)"
| "move_assign_loop E first (Suc n) d m tr =
     (case (object_at m first, object_at m d) of
        (Some x, Some y) \<Rightarrow>
          if move_assign_throws E tr y x then Throw element_exn (m, tr)
          else move_assign_loop E (Suc first) n (Suc d)
                 (m[d := Live x, first := Live (moved_from E x)]) (tr @ [MoveAssigned x])
      | _ \<Rightarrow> Undefined)"

definition std_move ::
  "'a env \<Rightarrow> nat \<Rightarrow> nat \<Rightarrow> nat \<Rightarrow> 'a slot list \<Rightarrow> 'a event list
     \<Rightarrow> ('a slot list \<times> 'a event list, 'a slot list \<times> 'a event list) outcome" where
  "std_move E first last_p d_first m tr =
     (if first \<le> last_p then move_assign_loop E first (last_p - first) d_first m tr else Undefined)"

fun move_backward_loop ::
  "'a env \<Rightarrow> nat \<Rightarrow> nat \<Rightarrow> nat \<Rightarrow> 'a slot list \<Rightarrow> 'a event list
     \<Rightarrow> ('a slot list \<times> 'a event list, 'a slot list \<times> 'a event list) outcome" where
  "move_backward_loop E 0 last_p d_last m tr = Return (m, tr)"
| "move_backward_loop E (Suc n) last_p d_last m tr =
     (if last_p = 0 \<or> d_last = 0 then Undefined
      else (case (object_at m (last_p - 1), object_at m (d_last - 1)) of
              (Some x, Some y) \<Rightarrow>
                if move_assign_throws E tr y x then Throw element_exn (m, tr)
                else move_backward_loop E n (last_p - 1) (d_last - 1)
                       (m[d_last - 1 := Live x, last_p - 1 := Live (moved_from E x)])
                       (tr @ [MoveAssigned x])
            | _ \<Rightarrow> Undefined))"

definition std_move_backward ::
  "'a env \<Rightarrow> nat \<Rightarrow> nat \<Rightarrow> nat \<Rightarrow> 'a slot list \<Rightarrow> 'a event list
     \<Rightarrow> ('a slot list \<times> 'a event list, 'a slot list \<times> 'a event list) outcome" where
  "std_move_backward E first last_p d_last m tr =
     (if first \<le> last_p then move_backward_loop E (last_p - first) last_p d_last m tr else Undefined)"

section \<open>RawMemory\<close>

text \<open>
  \<^verbatim>\<open>size_t\<close> has 64 bits. The source multiplies two values of this type in two places,
  \<^verbatim>\<open>n * sizeof(T)\<close> and \<^verbatim>\<open>size_ * 2\<close>; the product is taken modulo \<open>2 ^ 64\<close>.
\<close>

definition size_t :: "nat \<Rightarrow> nat" where
  "size_t n = n mod 2 ^ 64"

text \<open>
  A pointer of type \<^verbatim>\<open>T*\<close> that a \<^verbatim>\<open>RawMemory\<close> holds is the null pointer, or points
  to the start of a block that \<^verbatim>\<open>operator new\<close> returned and is given by the slots of
  that block, or dangles: its block has been released. A block can have no slot at all
  (\<^verbatim>\<open>operator new(0)\<close> returns a pointer that is not null). \<open>slots\<close> is the storage
  that can be reached through the pointer, \<open>store\<close> writes it back.
\<close>

datatype 'a pointer = Null | Block "'a slot list" | Dangling

definition slots :: "'a pointer \<Rightarrow> 'a slot list" where
  "slots p = (case p of Null \<Rightarrow> [] | Block m \<Rightarrow> m | Dangling \<Rightarrow> [])"

definition store :: "'a pointer \<Rightarrow> 'a slot list \<Rightarrow> 'a pointer" where
  "store p m = (case p of Null \<Rightarrow> Null | Block m0 \<Rightarrow> Block m | Dangling \<Rightarrow> Dangling)"

text \<open>
  \<^verbatim>\<open>operator new(bytes)\<close> throws \<^verbatim>\<open>bad_alloc\<close> or returns a block of \<open>bytes\<close> bytes,
  which has room for \<open>bytes div sizeof(T)\<close> objects.
\<close>

definition operator_new ::
  "'a env \<Rightarrow> nat \<Rightarrow> 'a event list \<Rightarrow> ('a pointer \<times> 'a event list, 'a event list) outcome" where
  "operator_new E bytes tr =
     (if new_throws E tr bytes then Throw bad_alloc tr
      else Return (Block (replicate (bytes div sizeof_T E) Raw),
                   tr @ [Allocated (bytes div sizeof_T E)]))"

text \<open>
  \<^verbatim>\<open>operator delete(p + off)\<close> for a pointer \<open>p\<close> that a \<^verbatim>\<open>RawMemory\<close> holds. It
  gives what \<open>p\<close> is afterwards. The null pointer is accepted and nothing happens. The
  start of a block is accepted: the block is released, with whatever lives in it, and the
  pointer dangles. A pointer into the middle of a block was never returned by
  \<^verbatim>\<open>operator new\<close>, and a dangling pointer has been released before: both are undefined.
\<close>

definition operator_delete ::
  "'a pointer \<Rightarrow> nat \<Rightarrow> 'a event list \<Rightarrow> ('a pointer \<times> 'a event list) option" where
  "operator_delete p off tr =
     (case p of
        Null \<Rightarrow> if off = 0 then Some (Null, tr) else None
      | Block m \<Rightarrow> if off = 0 then Some (Dangling, tr @ [Deallocated m]) else None
      | Dangling \<Rightarrow> None)"

text \<open>
  \<open>rm_buffer\<close> and \<open>rm_capacity\<close> stand for the members \<^verbatim>\<open>buffer_\<close> and
  \<^verbatim>\<open>capacity_\<close> (a name cannot end in an underscore here).
\<close>

record 'a RawMemory =
  rm_buffer :: "'a pointer"
  rm_capacity :: nat

definition rm_slots :: "'a RawMemory \<Rightarrow> 'a slot list" where
  "rm_slots d = slots (rm_buffer d)"

definition rm_store :: "'a RawMemory \<Rightarrow> 'a slot list \<Rightarrow> 'a RawMemory" where
  "rm_store d m = d\<lparr>rm_buffer := store (rm_buffer d) m\<rparr>"

definition RawMemory_default :: "'a RawMemory" where
  "RawMemory_default = \<lparr>rm_buffer = Null, rm_capacity = 0\<rparr>"

text \<open>
  \<^verbatim>\<open>Allocate(n)\<close> is \<^verbatim>\<open>n != 0 ? operator new(n * sizeof(T)) : nullptr\<close>. When the
  product wraps, the block is smaller than \<open>n\<close> objects.
\<close>

definition Allocate ::
  "'a env \<Rightarrow> nat \<Rightarrow> 'a event list \<Rightarrow> ('a pointer \<times> 'a event list, 'a event list) outcome" where
  "Allocate E n tr =
     (if n \<noteq> 0 then operator_new E (size_t (n * sizeof_T E)) tr else Return (Null, tr))"

definition Deallocate :: "'a pointer \<Rightarrow> 'a event list \<Rightarrow> 'a event list option" where
  "Deallocate buf tr =
     (case operator_delete buf 0 tr of None \<Rightarrow> None | Some (p, tr') \<Rightarrow> Some tr')"

definition RawMemory_ctor :: "'a env \<Rightarrow> nat \<Rightarrow> 'a event list \<Rightarrow> ('a RawMemory \<times> 'a event list, 'a event list) outcome" where
  "RawMemory_ctor E capacity tr =
     (case Allocate E capacity tr of
        Return (buf, tr') \<Rightarrow> Return (\<lparr>rm_buffer = buf, rm_capacity = capacity\<rparr>, tr')
      | Throw e tr' \<Rightarrow> Throw e tr'
      | Undefined \<Rightarrow> Undefined)"

text \<open>The destructor; \<open>None\<close> is undefined behaviour.\<close>

definition RawMemory_dtor :: "'a RawMemory \<Rightarrow> 'a event list \<Rightarrow> 'a event list option" where
  "RawMemory_dtor d tr = Deallocate (rm_buffer d) tr"

text \<open>The move constructor gives the new object and what is left of the other one.\<close>

definition RawMemory_move_ctor :: "'a RawMemory \<Rightarrow> 'a RawMemory \<times> 'a RawMemory" where
  "RawMemory_move_ctor other =
     (\<lparr>rm_buffer = rm_buffer other, rm_capacity = rm_capacity other\<rparr>,
      other\<lparr>rm_buffer := Null, rm_capacity := 0\<rparr>)"

definition RawMemory_Swap :: "'a RawMemory \<Rightarrow> 'a RawMemory \<Rightarrow> 'a RawMemory \<times> 'a RawMemory" where
  "RawMemory_Swap d other =
     (d\<lparr>rm_buffer := rm_buffer other, rm_capacity := rm_capacity other\<rparr>,
      other\<lparr>rm_buffer := rm_buffer d, rm_capacity := rm_capacity d\<rparr>)"

definition RawMemory_Capacity :: "'a RawMemory \<Rightarrow> nat" where
  "RawMemory_Capacity d = rm_capacity d"

text \<open>\<^verbatim>\<open>operator+\<close> and \<^verbatim>\<open>operator[]\<close> with their assertions.\<close>

definition RawMemory_plus :: "'a RawMemory \<Rightarrow> nat \<Rightarrow> nat option" where
  "RawMemory_plus d offset = (if offset \<le> rm_capacity d then Some offset else None)"

definition RawMemory_index :: "'a RawMemory \<Rightarrow> nat \<Rightarrow> nat option" where
  "RawMemory_index d index = (if index < rm_capacity d then Some index else None)"

section \<open>Vector\<close>

text \<open>
  \<open>vec_data\<close> and \<open>vec_size\<close> stand for the members \<^verbatim>\<open>data_\<close> and \<^verbatim>\<open>size_\<close>.
  Values of type \<^verbatim>\<open>size_t\<close> are natural numbers. \<^verbatim>\<open>size_++\<close> follows the
  construction of an object in slot \<^verbatim>\<open>size_\<close> of a block, and a block has fewer than
  \<open>2 ^ 64\<close> slots, so the increment does not wrap; every difference that the source takes
  is guarded here as it is there. An iterator is the offset from \<^verbatim>\<open>begin()\<close>.
  \<^verbatim>\<open>int\<close> has 32 bits: \<^verbatim>\<open>int position = pos - begin()\<close> keeps the low 32 bits of
  the difference, read as two's complement.
\<close>

record 'a Vector =
  vec_data :: "'a RawMemory"
  vec_size :: nat

definition to_int :: "nat \<Rightarrow> int" where
  "to_int d = signed_take_bit 31 (int d)"

definition Vector_default :: "'a Vector" where
  "Vector_default = \<lparr>vec_data = RawMemory_default, vec_size = 0\<rparr>"

definition Size :: "'a Vector \<Rightarrow> nat" where
  "Size v = vec_size v"

definition Capacity :: "'a Vector \<Rightarrow> nat" where
  "Capacity v = RawMemory_Capacity (vec_data v)"

text \<open>The storage behind \<^verbatim>\<open>data_.GetAddress()\<close>, read and written.\<close>

definition buffer :: "'a Vector \<Rightarrow> 'a slot list" where
  "buffer v = rm_slots (vec_data v)"

definition with_buffer :: "'a Vector \<Rightarrow> 'a slot list \<Rightarrow> 'a Vector" where
  "with_buffer v m = v\<lparr>vec_data := rm_store (vec_data v) m\<rparr>"

text \<open>\<^verbatim>\<open>operator[]\<close>: the object at an index, \<open>None\<close> where the assertion fails.\<close>

definition at :: "'a Vector \<Rightarrow> nat \<Rightarrow> 'a option" where
  "at v index =
     (if index < vec_size v
      then (case RawMemory_index (vec_data v) index of
              None \<Rightarrow> None
            | Some p \<Rightarrow> object_at (buffer v) p)
      else None)"

text \<open>The sequence a caller sees: what \<^verbatim>\<open>operator[]\<close> gives at the indices below \<^verbatim>\<open>Size()\<close>.\<close>

definition contents :: "'a Vector \<Rightarrow> 'a option list" where
  "contents v = map (at v) [0..<Size v]"

definition Vector_sized :: "'a env \<Rightarrow> nat \<Rightarrow> 'a event list \<Rightarrow> ('a Vector \<times> 'a event list, 'a event list) outcome" where
  "Vector_sized E n tr =
     (case RawMemory_ctor E n tr of
        Undefined \<Rightarrow> Undefined
      | Throw e tr1 \<Rightarrow> Throw e tr1
      | Return (d, tr1) \<Rightarrow>
          (case uninitialized_value_construct_n E 0 n (rm_slots d) tr1 of
             Undefined \<Rightarrow> Undefined
           | Throw e (m, tr2) \<Rightarrow>
               (case RawMemory_dtor (rm_store d m) tr2 of
                  None \<Rightarrow> Undefined
                | Some tr3 \<Rightarrow> Throw e tr3)
           | Return (m, tr2) \<Rightarrow> Return (\<lparr>vec_data = rm_store d m, vec_size = n\<rparr>, tr2)))"

definition Vector_copy_ctor :: "'a env \<Rightarrow> 'a Vector \<Rightarrow> 'a event list \<Rightarrow> ('a Vector \<times> 'a event list, 'a event list) outcome" where
  "Vector_copy_ctor E other tr =
     (case RawMemory_ctor E (vec_size other) tr of
        Undefined \<Rightarrow> Undefined
      | Throw e tr1 \<Rightarrow> Throw e tr1
      | Return (d, tr1) \<Rightarrow>
          (case uninitialized_copy_n E (buffer other) 0 (vec_size other) (rm_slots d) 0 tr1 of
             Undefined \<Rightarrow> Undefined
           | Throw e (m, tr2) \<Rightarrow>
               (case RawMemory_dtor (rm_store d m) tr2 of
                  None \<Rightarrow> Undefined
                | Some tr3 \<Rightarrow> Throw e tr3)
           | Return (m, tr2) \<Rightarrow>
               Return (\<lparr>vec_data = rm_store d m, vec_size = vec_size other\<rparr>, tr2)))"

text \<open>
  The move constructor and \<^verbatim>\<open>Swap\<close> are \<^verbatim>\<open>noexcept\<close>. They give this vector, the
  other one afterwards, and the history.
\<close>

definition Vector_move_ctor :: "'a Vector \<Rightarrow> 'a event list \<Rightarrow> 'a Vector \<times> 'a Vector \<times> 'a event list" where
  "Vector_move_ctor other tr =
     (let (d, od) = RawMemory_move_ctor (vec_data other)
      in (\<lparr>vec_data = d, vec_size = vec_size other\<rparr>, other\<lparr>vec_data := od, vec_size := 0\<rparr>, tr))"

definition Vector_dtor :: "'a Vector \<Rightarrow> 'a event list \<Rightarrow> 'a event list option" where
  "Vector_dtor v tr =
     (case destroy_n 0 (vec_size v) (buffer v) tr of
        None \<Rightarrow> None
      | Some (m, tr1) \<Rightarrow> RawMemory_dtor (rm_store (vec_data v) m) tr1)"

definition Swap :: "'a Vector \<Rightarrow> 'a Vector \<Rightarrow> 'a event list \<Rightarrow> 'a Vector \<times> 'a Vector \<times> 'a event list" where
  "Swap v other tr =
     (let (d, od) = RawMemory_Swap (vec_data v) (vec_data other)
      in (v\<lparr>vec_data := d, vec_size := vec_size other\<rparr>,
          other\<lparr>vec_data := od, vec_size := vec_size v\<rparr>, tr))"

text \<open>
  The \<^verbatim>\<open>if constexpr\<close> block that \<^verbatim>\<open>Reserve\<close>, \<^verbatim>\<open>PushBack\<close>, \<^verbatim>\<open>EmplaceBack\<close>
  and \<^verbatim>\<open>Emplace\<close> share: move when the move constructor cannot throw or there is no
  copy constructor, copy otherwise.
\<close>

definition relocate_n ::
  "'a env \<Rightarrow> 'a slot list \<Rightarrow> nat \<Rightarrow> nat \<Rightarrow> 'a slot list \<Rightarrow> nat \<Rightarrow> 'a event list
     \<Rightarrow> ('a slot list \<times> 'a slot list \<times> 'a event list,
         'a slot list \<times> 'a slot list \<times> 'a event list) outcome" where
  "relocate_n E src first n m d_first tr =
     (if is_nothrow_move_constructible E \<or> \<not> is_copy_constructible E
      then uninitialized_move_n E src first n m d_first tr
      else (case uninitialized_copy_n E src first n m d_first tr of
              Undefined \<Rightarrow> Undefined
            | Throw e (m', tr') \<Rightarrow> Throw e (src, m', tr')
            | Return (m', tr') \<Rightarrow> Return (src, m', tr')))"

text \<open>
  The end of every growth branch: \<^verbatim>\<open>destroy_n(data_.GetAddress(), size_)\<close>,
  \<^verbatim>\<open>data_.Swap(new_data)\<close>, and the destructor of \<^verbatim>\<open>new_data\<close> at the end of its
  scope.
\<close>

definition replace_storage :: "'a Vector \<Rightarrow> 'a RawMemory \<Rightarrow> 'a event list \<Rightarrow> ('a Vector \<times> 'a event list) option" where
  "replace_storage v new_data tr =
     (case destroy_n 0 (vec_size v) (buffer v) tr of
        None \<Rightarrow> None
      | Some (m, tr1) \<Rightarrow>
          (let (d, nd) = RawMemory_Swap (rm_store (vec_data v) m) new_data
           in (case RawMemory_dtor nd tr1 of
                 None \<Rightarrow> None
               | Some tr2 \<Rightarrow> Some (v\<lparr>vec_data := d\<rparr>, tr2))))"

text \<open>
  An exception \<open>e\<close> that leaves the scope of the local \<^verbatim>\<open>new_data\<close>: the destructor of
  \<^verbatim>\<open>new_data\<close> runs, and the caller is left with the vector \<open>v\<close>.
\<close>

definition unwind ::
  "'a RawMemory \<Rightarrow> exn \<Rightarrow> 'a Vector \<Rightarrow> 'a event list \<Rightarrow> ('r, 'a Vector \<times> 'a event list) outcome" where
  "unwind new_data e v tr =
     (case RawMemory_dtor new_data tr of None \<Rightarrow> Undefined | Some tr' \<Rightarrow> Throw e (v, tr'))"

definition Reserve ::
  "'a env \<Rightarrow> nat \<Rightarrow> 'a Vector \<Rightarrow> 'a event list
     \<Rightarrow> ('a Vector \<times> 'a event list, 'a Vector \<times> 'a event list) outcome" where
  "Reserve E new_capacity v tr =
     (if new_capacity \<le> Capacity v then Return (v, tr)
      else (case RawMemory_ctor E new_capacity tr of
              Undefined \<Rightarrow> Undefined
            | Throw e tr1 \<Rightarrow> Throw e (v, tr1)
            | Return (new_data, tr1) \<Rightarrow>
                (case relocate_n E (buffer v) 0 (vec_size v) (rm_slots new_data) 0 tr1 of
                   Undefined \<Rightarrow> Undefined
                 | Throw e (src, nb, tr2) \<Rightarrow> unwind (rm_store new_data nb) e (with_buffer v src) tr2
                 | Return (src, nb, tr2) \<Rightarrow>
                     (case replace_storage (with_buffer v src) (rm_store new_data nb) tr2 of
                        None \<Rightarrow> Undefined
                      | Some s \<Rightarrow> Return s))))"

definition Resize ::
  "'a env \<Rightarrow> nat \<Rightarrow> 'a Vector \<Rightarrow> 'a event list
     \<Rightarrow> ('a Vector \<times> 'a event list, 'a Vector \<times> 'a event list) outcome" where
  "Resize E new_size v tr =
     (if new_size < vec_size v
      then (case destroy_n new_size (vec_size v - new_size) (buffer v) tr of
              None \<Rightarrow> Undefined
            | Some (m, tr1) \<Rightarrow> Return ((with_buffer v m)\<lparr>vec_size := new_size\<rparr>, tr1))
      else (case Reserve E new_size v tr of
              Undefined \<Rightarrow> Undefined
            | Throw e s \<Rightarrow> Throw e s
            | Return (v1, tr1) \<Rightarrow>
                (case uninitialized_value_construct_n E (vec_size v1) (new_size - vec_size v1)
                        (buffer v1) tr1 of
                   Undefined \<Rightarrow> Undefined
                 | Throw e (m, tr2) \<Rightarrow> Throw e (with_buffer v1 m, tr2)
                 | Return (m, tr2) \<Rightarrow> Return ((with_buffer v1 m)\<lparr>vec_size := new_size\<rparr>, tr2))))"

definition PopBack :: "'a Vector \<Rightarrow> 'a event list \<Rightarrow> ('a Vector \<times> 'a event list) option" where
  "PopBack v tr =
     (if vec_size v = 0 then None
      else (case destroy_at (vec_size v - 1) (buffer v) tr of
              None \<Rightarrow> None
            | Some (m, tr1) \<Rightarrow> Some ((with_buffer v m)\<lparr>vec_size := vec_size v - 1\<rparr>, tr1)))"

text \<open>
  The capacity that the three growth branches ask for: \<^verbatim>\<open>size_ == 0 ? 1 : size_ * 2\<close>.
\<close>

definition grown :: "nat \<Rightarrow> nat" where
  "grown sz = (if sz = 0 then 1 else size_t (sz * 2))"

text \<open>
  \<^verbatim>\<open>PushBack\<close> and \<^verbatim>\<open>EmplaceBack\<close> have the same body; \<^verbatim>\<open>EmplaceBack\<close> also
  returns \<^verbatim>\<open>data_[size_++]\<close>, here the index of that slot.
\<close>

definition PushBack ::
  "'a env \<Rightarrow> 'a ctor_args \<Rightarrow> 'a Vector \<Rightarrow> 'a event list
     \<Rightarrow> ('a Vector \<times> 'a event list, 'a Vector \<times> 'a event list) outcome" where
  "PushBack E val v tr =
     (if Capacity v \<le> vec_size v
      then (case RawMemory_ctor E (grown (vec_size v)) tr of
              Undefined \<Rightarrow> Undefined
            | Throw e tr1 \<Rightarrow> Throw e (v, tr1)
            | Return (new_data, tr1) \<Rightarrow>
                (case construct E val (buffer v) tr1 of
                   Undefined \<Rightarrow> Undefined
                 | Throw e u \<Rightarrow> unwind new_data e v tr1
                 | Return (x, src0, ev) \<Rightarrow>
                     (case construct_at (rm_slots new_data) (vec_size v) x of
                        None \<Rightarrow> Undefined
                      | Some nb0 \<Rightarrow>
                          (case relocate_n E src0 0 (vec_size v) nb0 0 (tr1 @ [ev]) of
                             Undefined \<Rightarrow> Undefined
                           | Throw e (src, nb, tr2) \<Rightarrow>
                               unwind (rm_store new_data nb) e (with_buffer v src) tr2
                           | Return (src, nb, tr2) \<Rightarrow>
                               (case replace_storage (with_buffer v src) (rm_store new_data nb) tr2 of
                                  None \<Rightarrow> Undefined
                                | Some (v1, tr3) \<Rightarrow>
                                    Return (v1\<lparr>vec_size := vec_size v1 + 1\<rparr>, tr3))))))
      else (case construct E val (buffer v) tr of
              Undefined \<Rightarrow> Undefined
            | Throw e u \<Rightarrow> Throw e (v, tr)
            | Return (x, m0, ev) \<Rightarrow>
                (case construct_at m0 (vec_size v) x of
                   None \<Rightarrow> Undefined
                 | Some m \<Rightarrow> Return ((with_buffer v m)\<lparr>vec_size := vec_size v + 1\<rparr>, tr @ [ev]))))"

definition EmplaceBack ::
  "'a env \<Rightarrow> 'a ctor_args \<Rightarrow> 'a Vector \<Rightarrow> 'a event list
     \<Rightarrow> (nat \<times> 'a Vector \<times> 'a event list, 'a Vector \<times> 'a event list) outcome" where
  "EmplaceBack E args v tr =
     (if Capacity v \<le> vec_size v
      then (case RawMemory_ctor E (grown (vec_size v)) tr of
              Undefined \<Rightarrow> Undefined
            | Throw e tr1 \<Rightarrow> Throw e (v, tr1)
            | Return (new_data, tr1) \<Rightarrow>
                (case construct E args (buffer v) tr1 of
                   Undefined \<Rightarrow> Undefined
                 | Throw e u \<Rightarrow> unwind new_data e v tr1
                 | Return (x, src0, ev) \<Rightarrow>
                     (case construct_at (rm_slots new_data) (vec_size v) x of
                        None \<Rightarrow> Undefined
                      | Some nb0 \<Rightarrow>
                          (case relocate_n E src0 0 (vec_size v) nb0 0 (tr1 @ [ev]) of
                             Undefined \<Rightarrow> Undefined
                           | Throw e (src, nb, tr2) \<Rightarrow>
                               unwind (rm_store new_data nb) e (with_buffer v src) tr2
                           | Return (src, nb, tr2) \<Rightarrow>
                               (case replace_storage (with_buffer v src) (rm_store new_data nb) tr2 of
                                  None \<Rightarrow> Undefined
                                | Some (v1, tr3) \<Rightarrow>
                                    (case RawMemory_index (vec_data v1) (vec_size v1) of
                                       None \<Rightarrow> Undefined
                                     | Some i \<Rightarrow>
                                         Return (i, v1\<lparr>vec_size := vec_size v1 + 1\<rparr>, tr3)))))))
      else (case construct E args (buffer v) tr of
              Undefined \<Rightarrow> Undefined
            | Throw e u \<Rightarrow> Throw e (v, tr)
            | Return (x, m0, ev) \<Rightarrow>
                (case construct_at m0 (vec_size v) x of
                   None \<Rightarrow> Undefined
                 | Some m \<Rightarrow>
                     (case RawMemory_index (vec_data v) (vec_size v) of
                        None \<Rightarrow> Undefined
                      | Some i \<Rightarrow>
                          Return (i, (with_buffer v m)\<lparr>vec_size := vec_size v + 1\<rparr>, tr @ [ev])))))"

text \<open>
  The growth branch of \<^verbatim>\<open>Emplace\<close>. \<^verbatim>\<open>size_ - position\<close> is computed in
  \<^verbatim>\<open>size_t\<close>: with \<open>position\<close> above \<^verbatim>\<open>size_\<close> it wraps to a count that runs off
  both blocks.
\<close>

definition Emplace_grow ::
  "'a env \<Rightarrow> int \<Rightarrow> 'a ctor_args \<Rightarrow> 'a Vector \<Rightarrow> 'a event list
     \<Rightarrow> ('a Vector \<times> 'a event list, 'a Vector \<times> 'a event list) outcome" where
  "Emplace_grow E position args v tr =
     (case RawMemory_ctor E (grown (vec_size v)) tr of
        Undefined \<Rightarrow> Undefined
      | Throw e tr1 \<Rightarrow> Throw e (v, tr1)
      | Return (new_data, tr1) \<Rightarrow>
          if position < 0 then Undefined
          else (case construct E args (buffer v) tr1 of
                  Undefined \<Rightarrow> Undefined
                | Throw e u \<Rightarrow> unwind new_data e v tr1
                | Return (x, src0, ev) \<Rightarrow>
                    (case construct_at (rm_slots new_data) (nat position) x of
                       None \<Rightarrow> Undefined
                     | Some nb0 \<Rightarrow>
                         (case relocate_n E src0 0 (nat position) nb0 0 (tr1 @ [ev]) of
                            Undefined \<Rightarrow> Undefined
                          | Throw e (src, nb, tr2) \<Rightarrow>
                              unwind (rm_store new_data nb) e (with_buffer v src) tr2
                          | Return (src1, nb1, tr2) \<Rightarrow>
                              if vec_size v < nat position then Undefined
                              else (case relocate_n E src1 (nat position) (vec_size v - nat position)
                                           nb1 (nat position + 1) tr2 of
                                      Undefined \<Rightarrow> Undefined
                                    | Throw e (src, nb, tr3) \<Rightarrow>
                                        unwind (rm_store new_data nb) e (with_buffer v src) tr3
                                    | Return (src, nb, tr3) \<Rightarrow>
                                        (case replace_storage (with_buffer v src)
                                                (rm_store new_data nb) tr3 of
                                           None \<Rightarrow> Undefined
                                         | Some s \<Rightarrow> Return s))))))"

text \<open>
  The \<^verbatim>\<open>try\<close> block of the other branch, on the block of the vector. The local
  \<^verbatim>\<open>new_s\<close> is destroyed when its scope is left, by an exception or at the end.
\<close>

definition Emplace_try ::
  "'a env \<Rightarrow> nat \<Rightarrow> int \<Rightarrow> 'a ctor_args \<Rightarrow> 'a Vector \<Rightarrow> 'a event list
     \<Rightarrow> ('a slot list \<times> 'a event list, 'a slot list \<times> 'a event list) outcome" where
  "Emplace_try E pos position args v tr =
     (if pos \<noteq> vec_size v
      then (case construct E args (buffer v) tr of
              Undefined \<Rightarrow> Undefined
            | Throw e u \<Rightarrow> Throw e (buffer v, tr)
            | Return (x, m0, ev) \<Rightarrow>
                if vec_size v = 0 then Undefined
                else (case RawMemory_index (vec_data v) (vec_size v - 1) of
                        None \<Rightarrow> Undefined
                      | Some i \<Rightarrow>
                          (case object_at m0 i of
                             None \<Rightarrow> Undefined
                           | Some y \<Rightarrow>
                               if move_throws E (tr @ [ev]) y
                               then Throw element_exn (m0, tr @ [ev, Destroyed x])
                               else (case construct_at m0 (vec_size v) y of
                                       None \<Rightarrow> Undefined
                                     | Some m1 \<Rightarrow>
                                         if position < 0 then Undefined
                                         else (case std_move_backward E (nat position) (vec_size v - 1)
                                                      (vec_size v) (m1[i := Live (moved_from E y)])
                                                      (tr @ [ev, Moved y]) of
                                                 Undefined \<Rightarrow> Undefined
                                               | Throw e (m2, tr2) \<Rightarrow> Throw e (m2, tr2 @ [Destroyed x])
                                               | Return (m2, tr2) \<Rightarrow>
                                                   (case object_at m2 (nat position) of
                                                      None \<Rightarrow> Undefined
                                                    | Some z \<Rightarrow>
                                                        if move_assign_throws E tr2 z x
                                                        then Throw element_exn (m2, tr2 @ [Destroyed x])
                                                        else Return (m2[nat position := Live x],
                                                                     tr2 @ [MoveAssigned x,
                                                                            Destroyed (moved_from E x)])))))))
      else (case construct E args (buffer v) tr of
              Undefined \<Rightarrow> Undefined
            | Throw e u \<Rightarrow> Throw e (buffer v, tr)
            | Return (x, m0, ev) \<Rightarrow>
                (case construct_at m0 (vec_size v) x of
                   None \<Rightarrow> Undefined
                 | Some m \<Rightarrow> Return (m, tr @ [ev]))))"

text \<open>
  \<^verbatim>\<open>Emplace\<close>: the handler of the \<^verbatim>\<open>try\<close> block calls
  \<^verbatim>\<open>operator delete(end())\<close>, where \<^verbatim>\<open>end()\<close> is \<^verbatim>\<open>data_.GetAddress() + size_\<close>,
  and rethrows; at the end \<^verbatim>\<open>size_++\<close> and \<^verbatim>\<open>return begin() + position\<close>.
\<close>

definition Emplace ::
  "'a env \<Rightarrow> nat \<Rightarrow> 'a ctor_args \<Rightarrow> 'a Vector \<Rightarrow> 'a event list
     \<Rightarrow> (nat \<times> 'a Vector \<times> 'a event list, 'a Vector \<times> 'a event list) outcome" where
  "Emplace E pos args v tr =
     (let position = to_int pos
      in if Capacity v \<le> vec_size v
         then (case Emplace_grow E position args v tr of
                 Undefined \<Rightarrow> Undefined
               | Throw e s \<Rightarrow> Throw e s
               | Return (v1, tr1) \<Rightarrow>
                   if position < 0 then Undefined
                   else Return (nat position, v1\<lparr>vec_size := vec_size v1 + 1\<rparr>, tr1))
         else (case Emplace_try E pos position args v tr of
                 Undefined \<Rightarrow> Undefined
               | Throw e (m, tr1) \<Rightarrow>
                   (case operator_delete (store (rm_buffer (vec_data v)) m) (vec_size v) tr1 of
                      None \<Rightarrow> Undefined
                    | Some (p, tr2) \<Rightarrow>
                        Throw e (v\<lparr>vec_data := (vec_data v)\<lparr>rm_buffer := p\<rparr>\<rparr>, tr2))
               | Return (m, tr1) \<Rightarrow>
                   if position < 0 then Undefined
                   else Return (nat position, (with_buffer v m)\<lparr>vec_size := vec_size v + 1\<rparr>, tr1)))"

text \<open>The two overloads of \<^verbatim>\<open>Insert\<close>, for an lvalue and for an rvalue.\<close>

definition Insert ::
  "'a env \<Rightarrow> nat \<Rightarrow> 'a \<Rightarrow> 'a Vector \<Rightarrow> 'a event list
     \<Rightarrow> (nat \<times> 'a Vector \<times> 'a event list, 'a Vector \<times> 'a event list) outcome" where
  "Insert E pos val v tr = Emplace E pos (Copy_arg val) v tr"

definition Insert_rvalue ::
  "'a env \<Rightarrow> nat \<Rightarrow> 'a rvalue \<Rightarrow> 'a Vector \<Rightarrow> 'a event list
     \<Rightarrow> (nat \<times> 'a Vector \<times> 'a event list, 'a Vector \<times> 'a event list) outcome" where
  "Insert_rvalue E pos val v tr = Emplace E pos (Move_arg val) v tr"

definition Erase ::
  "'a env \<Rightarrow> nat \<Rightarrow> 'a Vector \<Rightarrow> 'a event list
     \<Rightarrow> (nat \<times> 'a Vector \<times> 'a event list, 'a Vector \<times> 'a event list) outcome" where
  "Erase E pos v tr =
     (let position = to_int pos
      in if position < 0 then Undefined
         else (case std_move E (nat position + 1) (vec_size v) (nat position) (buffer v) tr of
                 Undefined \<Rightarrow> Undefined
               | Throw e (m, tr1) \<Rightarrow> Throw e (with_buffer v m, tr1)
               | Return (m, tr1) \<Rightarrow>
                   if vec_size v = 0 then Undefined
                   else (case destroy_at (vec_size v - 1) m tr1 of
                           None \<Rightarrow> Undefined
                         | Some (m2, tr2) \<Rightarrow>
                             Return (nat position,
                                     (with_buffer v m2)\<lparr>vec_size := vec_size v - 1\<rparr>, tr2))))"

text \<open>
  Copy assignment tests \<^verbatim>\<open>this != &rhs\<close>, so its argument is either the vector itself
  or another one. The other vector is \<^verbatim>\<open>const\<close>: it is read and not given back.
\<close>

datatype 'a rhs = Self | Other "'a Vector"

definition copy_assign ::
  "'a env \<Rightarrow> 'a Vector \<Rightarrow> 'a rhs \<Rightarrow> 'a event list
     \<Rightarrow> ('a Vector \<times> 'a event list, 'a Vector \<times> 'a event list) outcome" where
  "copy_assign E v r tr =
     (case r of
        Self \<Rightarrow> Return (v, tr)
      | Other rhs \<Rightarrow>
          if vec_size rhs > Capacity v
          then (case Vector_copy_ctor E rhs tr of
                  Undefined \<Rightarrow> Undefined
                | Throw e tr1 \<Rightarrow> Throw e (v, tr1)
                | Return (rhs_copy, tr1) \<Rightarrow>
                    (let (v1, rhs_copy1, tr2) = Swap v rhs_copy tr1
                     in (case Vector_dtor rhs_copy1 tr2 of
                           None \<Rightarrow> Undefined
                         | Some tr3 \<Rightarrow> Return (v1, tr3))))
          else if vec_size v \<le> vec_size rhs
          then (case std_copy E (buffer rhs) 0 (vec_size v) (buffer v) 0 tr of
                  Undefined \<Rightarrow> Undefined
                | Throw e (m, tr1) \<Rightarrow> Throw e (with_buffer v m, tr1)
                | Return (m, tr1) \<Rightarrow>
                    (case uninitialized_copy_n E (buffer rhs) (vec_size v) (vec_size rhs - vec_size v)
                            m (vec_size v) tr1 of
                       Undefined \<Rightarrow> Undefined
                     | Throw e (m2, tr2) \<Rightarrow> Throw e (with_buffer v m2, tr2)
                     | Return (m2, tr2) \<Rightarrow>
                         Return ((with_buffer v m2)\<lparr>vec_size := vec_size rhs\<rparr>, tr2)))
          else (case std_copy E (buffer rhs) 0 (vec_size rhs) (buffer v) 0 tr of
                  Undefined \<Rightarrow> Undefined
                | Throw e (m, tr1) \<Rightarrow> Throw e (with_buffer v m, tr1)
                | Return (m, tr1) \<Rightarrow>
                    (case destroy_n (vec_size rhs) (vec_size v - vec_size rhs) m tr1 of
                       None \<Rightarrow> Undefined
                     | Some (m2, tr2) \<Rightarrow>
                         Return ((with_buffer v m2)\<lparr>vec_size := vec_size rhs\<rparr>, tr2))))"

text \<open>
  Move assignment is \<^verbatim>\<open>Swap(rhs)\<close>. (Applied to one object, \<^verbatim>\<open>Swap\<close> exchanges
  each member with itself and nothing changes.)
\<close>

definition move_assign :: "'a Vector \<Rightarrow> 'a Vector \<Rightarrow> 'a event list \<Rightarrow> 'a Vector \<times> 'a Vector \<times> 'a event list" where
  "move_assign v rhs tr = Swap v rhs tr"

section \<open>Well-formed vectors\<close>

text \<open>
  A vector is well formed when its pointer is null or points to a block with at least one
  slot, the capacity is the number of slots of the block, the slots below \<^verbatim>\<open>size_\<close>
  hold live objects and the slots from \<^verbatim>\<open>size_\<close> on are raw. \<open>vec_of xs k\<close> is the
  vector that holds the objects \<open>xs\<close> and has \<open>k\<close> spare slots; the well-formed vectors
  are exactly these.
\<close>

definition block_ptr :: "'a slot list \<Rightarrow> 'a pointer" where
  "block_ptr m = (if m = [] then Null else Block m)"

definition vec_of :: "'a list \<Rightarrow> nat \<Rightarrow> 'a Vector" where
  "vec_of xs k =
     \<lparr>vec_data = \<lparr>rm_buffer = block_ptr (map Live xs @ replicate k Raw), rm_capacity = length xs + k\<rparr>,
      vec_size = length xs\<rparr>"

definition wf :: "'a Vector \<Rightarrow> bool" where
  "wf v =
     (rm_buffer (vec_data v) = block_ptr (buffer v)
      \<and> rm_capacity (vec_data v) = length (buffer v) \<and> vec_size v \<le> length (buffer v)
      \<and> list_all (\<lambda>s. s \<noteq> Raw) (take (vec_size v) (buffer v))
      \<and> list_all (\<lambda>s. s = Raw) (drop (vec_size v) (buffer v)))"

text \<open>
  The object that an argument list builds from a vector with the elements \<open>xs\<close>, if the
  constructor returns, and the elements of the vector after the constructor has returned.
\<close>

definition built :: "'a ctor_args \<Rightarrow> 'a list \<Rightarrow> 'a option" where
  "built a xs =
     (case a of
        Copy_arg x \<Rightarrow> Some x
      | Move_arg r \<Rightarrow>
          (case r of Object x \<Rightarrow> Some x | Element i \<Rightarrow> if i < length xs then Some (xs ! i) else None)
      | Other_args r \<Rightarrow> r)"

definition after_construct :: "'a env \<Rightarrow> 'a ctor_args \<Rightarrow> 'a list \<Rightarrow> 'a list" where
  "after_construct E a xs =
     (case a of
        Copy_arg x \<Rightarrow> xs
      | Move_arg r \<Rightarrow>
          (case r of Object x \<Rightarrow> xs | Element i \<Rightarrow> xs[i := moved_from E (xs ! i)])
      | Other_args r \<Rightarrow> xs)"

text \<open>
  The vector \<open>v\<close> after an rvalue argument that is one of its elements has been moved from.
\<close>

definition arg_moved :: "'a env \<Rightarrow> 'a ctor_args \<Rightarrow> 'a Vector \<Rightarrow> 'a Vector" where
  "arg_moved E a v =
     (case a of
        Copy_arg x \<Rightarrow> v
      | Move_arg r \<Rightarrow>
          (case r of
             Object x \<Rightarrow> v
           | Element i \<Rightarrow>
               (case object_at (buffer v) i of
                  None \<Rightarrow> v
                | Some x \<Rightarrow> with_buffer v ((buffer v)[i := Live (moved_from E x)])))
      | Other_args r \<Rightarrow> v)"

text \<open>
  An allocation of \<open>n\<close> objects fits when \<open>n * sizeof(T)\<close> does not wrap. An element type
  and an allocator that never throw.
\<close>

definition fits :: "'a env \<Rightarrow> nat \<Rightarrow> bool" where
  "fits E n = (0 < sizeof_T E \<and> n * sizeof_T E < 2 ^ 64)"

text \<open>
  The number of slots of the block that \<^verbatim>\<open>Allocate(n)\<close> obtains, and the capacity that
  the growth policy asks for when nothing wraps.
\<close>

definition block_slots :: "'a env \<Rightarrow> nat \<Rightarrow> nat" where
  "block_slots E n = size_t (n * sizeof_T E) div sizeof_T E"

text \<open>The history after \<^verbatim>\<open>operator delete\<close> on the pointer of a well-formed vector.\<close>

definition released :: "'a slot list \<Rightarrow> 'a event list \<Rightarrow> 'a event list" where
  "released m tr = (if m = [] then tr else tr @ [Deallocated m])"

definition doubled_cap :: "nat \<Rightarrow> nat" where
  "doubled_cap sz = (if sz = 0 then 1 else 2 * sz)"

definition nothrow_env :: "'a env \<Rightarrow> bool" where
  "nothrow_env E =
     ((\<forall>tr n. \<not> new_throws E tr n) \<and> (\<forall>tr. \<not> default_throws E tr)
      \<and> (\<forall>tr x. \<not> copy_throws E tr x) \<and> (\<forall>tr x. \<not> move_throws E tr x)
      \<and> (\<forall>tr y x. \<not> copy_assign_throws E tr y x) \<and> (\<forall>tr y x. \<not> move_assign_throws E tr y x))"

text \<open>
  What holds of every vector that the operations produce, well formed or not: the elements
  lie in the block, and the block is not larger than the capacity says.
\<close>

definition in_bounds :: "'a Vector \<Rightarrow> bool" where
  "in_bounds v = (vec_size v \<le> length (buffer v) \<and> length (buffer v) \<le> rm_capacity (vec_data v))"

text \<open>
  A sequence of \<^verbatim>\<open>PushBack\<close> and \<^verbatim>\<open>EmplaceBack\<close> calls. \<open>run\<close> gives the vector
  after each call, provided every call returns.
\<close>

datatype 'a call = Call_PushBack "'a ctor_args" | Call_EmplaceBack "'a ctor_args"

definition do_call :: "'a env \<Rightarrow> 'a call \<Rightarrow> 'a Vector \<Rightarrow> 'a event list \<Rightarrow> ('a Vector \<times> 'a event list) option" where
  "do_call E c v tr =
     (case c of
        Call_PushBack a \<Rightarrow>
          (case PushBack E a v tr of Return s \<Rightarrow> Some s | Throw e s \<Rightarrow> None | Undefined \<Rightarrow> None)
      | Call_EmplaceBack a \<Rightarrow>
          (case EmplaceBack E a v tr of
             Return (i, s) \<Rightarrow> Some s
           | Throw e s \<Rightarrow> None
           | Undefined \<Rightarrow> None))"

fun run :: "'a env \<Rightarrow> 'a call list \<Rightarrow> 'a Vector \<Rightarrow> 'a event list \<Rightarrow> 'a Vector list option" where
  "run E [] v tr = Some []"
| "run E (c # cs) v tr =
     (case do_call E c v tr of
        None \<Rightarrow> None
      | Some (v', tr') \<Rightarrow>
          (case run E cs v' tr' of
             None \<Rightarrow> None
           | Some vs \<Rightarrow> Some (v' # vs)))"

text \<open>
  The calls whose arguments can be built at a length \<open>n\<close> of the vector: an argument list
  that is not a single object must not throw, and an rvalue that is an element of the
  vector must exist. In a run that starts with \<open>n\<close> elements, each call finds one element
  more than the call before.
\<close>

definition call_args :: "'a call \<Rightarrow> 'a ctor_args" where
  "call_args c = (case c of Call_PushBack a \<Rightarrow> a | Call_EmplaceBack a \<Rightarrow> a)"

definition valid_arg :: "'a ctor_args \<Rightarrow> nat \<Rightarrow> bool" where
  "valid_arg a n =
     (case a of
        Copy_arg x \<Rightarrow> True
      | Move_arg r \<Rightarrow> (case r of Object x \<Rightarrow> True | Element i \<Rightarrow> i < n)
      | Other_args r \<Rightarrow> r \<noteq> None)"

fun valid_calls :: "nat \<Rightarrow> 'a call list \<Rightarrow> bool" where
  "valid_calls n [] = True"
| "valid_calls n (c # cs) = (valid_arg (call_args c) n \<and> valid_calls (Suc n) cs)"

text \<open>
  What the growth policy says about consecutive vectors of such a run: each call adds one
  element; a call that finds the capacity exhausted (the test \<^verbatim>\<open>Capacity() <= size_\<close> of
  the source) leaves the capacity at \<open>max 1 (2 * previous capacity)\<close>, any other call
  leaves it as it was.
\<close>

fun doubling :: "'a Vector \<Rightarrow> 'a Vector list \<Rightarrow> bool" where
  "doubling v [] = True"
| "doubling v (w # ws) =
     (Size w = Size v + 1
      \<and> Capacity w = (if Capacity v \<le> Size v then max 1 (Capacity v * 2) else Capacity v)
      \<and> doubling w ws)"

text \<open>
  The vectors that the public operations can produce, from any arguments and at any point
  of any history, whether the operation returns or throws.
\<close>

inductive reachable :: "'a env \<Rightarrow> 'a Vector \<Rightarrow> bool" for E :: "'a env" where
  by_default: "reachable E Vector_default"
| by_sized: "Vector_sized E n tr = Return (v, tr') \<Longrightarrow> reachable E v"
| by_copy: "reachable E other \<Longrightarrow> Vector_copy_ctor E other tr = Return (v, tr') \<Longrightarrow> reachable E v"
| by_move: "reachable E other \<Longrightarrow> Vector_move_ctor other tr = (v, other', tr') \<Longrightarrow> reachable E v"
| by_move_source:
    "reachable E other \<Longrightarrow> Vector_move_ctor other tr = (v, other', tr') \<Longrightarrow> reachable E other'"
| by_Reserve: "reachable E v \<Longrightarrow> Reserve E n v tr = Return (v', tr') \<Longrightarrow> reachable E v'"
| by_Reserve_throw: "reachable E v \<Longrightarrow> Reserve E n v tr = Throw e (v', tr') \<Longrightarrow> reachable E v'"
| by_Resize: "reachable E v \<Longrightarrow> Resize E n v tr = Return (v', tr') \<Longrightarrow> reachable E v'"
| by_Resize_throw: "reachable E v \<Longrightarrow> Resize E n v tr = Throw e (v', tr') \<Longrightarrow> reachable E v'"
| by_PushBack: "reachable E v \<Longrightarrow> PushBack E a v tr = Return (v', tr') \<Longrightarrow> reachable E v'"
| by_PushBack_throw: "reachable E v \<Longrightarrow> PushBack E a v tr = Throw e (v', tr') \<Longrightarrow> reachable E v'"
| by_EmplaceBack: "reachable E v \<Longrightarrow> EmplaceBack E a v tr = Return (i, v', tr') \<Longrightarrow> reachable E v'"
| by_EmplaceBack_throw:
    "reachable E v \<Longrightarrow> EmplaceBack E a v tr = Throw e (v', tr') \<Longrightarrow> reachable E v'"
| by_PopBack: "reachable E v \<Longrightarrow> PopBack v tr = Some (v', tr') \<Longrightarrow> reachable E v'"
| by_Emplace: "reachable E v \<Longrightarrow> Emplace E pos a v tr = Return (i, v', tr') \<Longrightarrow> reachable E v'"
| by_Emplace_throw: "reachable E v \<Longrightarrow> Emplace E pos a v tr = Throw e (v', tr') \<Longrightarrow> reachable E v'"
| by_Insert: "reachable E v \<Longrightarrow> Insert E pos x v tr = Return (i, v', tr') \<Longrightarrow> reachable E v'"
| by_Insert_throw: "reachable E v \<Longrightarrow> Insert E pos x v tr = Throw e (v', tr') \<Longrightarrow> reachable E v'"
| by_Insert_rvalue:
    "reachable E v \<Longrightarrow> Insert_rvalue E pos x v tr = Return (i, v', tr') \<Longrightarrow> reachable E v'"
| by_Insert_rvalue_throw:
    "reachable E v \<Longrightarrow> Insert_rvalue E pos x v tr = Throw e (v', tr') \<Longrightarrow> reachable E v'"
| by_Erase: "reachable E v \<Longrightarrow> Erase E pos v tr = Return (i, v', tr') \<Longrightarrow> reachable E v'"
| by_Erase_throw: "reachable E v \<Longrightarrow> Erase E pos v tr = Throw e (v', tr') \<Longrightarrow> reachable E v'"
| by_copy_assign:
    "reachable E v \<Longrightarrow> reachable E rhs \<Longrightarrow> copy_assign E v (Other rhs) tr = Return (v', tr')
     \<Longrightarrow> reachable E v'"
| by_copy_assign_throw:
    "reachable E v \<Longrightarrow> reachable E rhs \<Longrightarrow> copy_assign E v (Other rhs) tr = Throw e (v', tr')
     \<Longrightarrow> reachable E v'"
| by_copy_assign_self: "reachable E v \<Longrightarrow> copy_assign E v Self tr = Return (v', tr') \<Longrightarrow> reachable E v'"
| by_move_assign:
    "reachable E v \<Longrightarrow> reachable E rhs \<Longrightarrow> move_assign v rhs tr = (v', rhs', tr') \<Longrightarrow> reachable E v'"
| by_move_assign_source:
    "reachable E v \<Longrightarrow> reachable E rhs \<Longrightarrow> move_assign v rhs tr = (v', rhs', tr') \<Longrightarrow> reachable E rhs'"
| by_Swap: "reachable E v \<Longrightarrow> reachable E other \<Longrightarrow> Swap v other tr = (v', other', tr') \<Longrightarrow> reachable E v'"
| by_Swap_other:
    "reachable E v \<Longrightarrow> reachable E other \<Longrightarrow> Swap v other tr = (v', other', tr') \<Longrightarrow> reachable E other'"

text \<open>
  Element types for the examples, all of four bytes: a type like \<^verbatim>\<open>int\<close>, where
  nothing throws; a copyable type whose copy constructor throws on the value 2 and whose
  move constructor is not \<^verbatim>\<open>noexcept\<close> and leaves 0 behind; a move-only type whose
  move constructor throws on the value 2 and leaves 0 behind.
\<close>

definition int_env :: "int env" where
  "int_env =
     \<lparr>sizeof_T = 4, new_throws = (\<lambda>tr n. False), default_value = 0, default_throws = (\<lambda>tr. False),
      copy_throws = (\<lambda>tr x. False), move_throws = (\<lambda>tr x. False), moved_from = (\<lambda>x. x),
      copy_assign_throws = (\<lambda>tr y x. False), move_assign_throws = (\<lambda>tr y x. False),
      is_nothrow_move_constructible = True, is_copy_constructible = True\<rparr>"

definition throwing_copy_env :: "int env" where
  "throwing_copy_env =
     int_env\<lparr>copy_throws := (\<lambda>tr x. x = 2), moved_from := (\<lambda>x. 0),
             is_nothrow_move_constructible := False\<rparr>"

definition move_only_env :: "int env" where
  "move_only_env =
     int_env\<lparr>move_throws := (\<lambda>tr x. x = 2), moved_from := (\<lambda>x. 0),
             is_nothrow_move_constructible := False, is_copy_constructible := False\<rparr>"

section \<open>The algorithms on a block of known shape\<close>


lemma object_at_app: "object_at (A @ Live x # B) (length A) = Some x"
  by (simp add: object_at_def)

lemma object_at_app2: "object_at (A @ C @ Live x # B) (length A + length C) = Some x"
  using object_at_app [of "A @ C" x B] by simp

lemma construct_at_app: "construct_at (A @ Raw # B) (length A) x = Some (A @ Live x # B)"
  by (simp add: construct_at_def)

lemma construct_at_app2:
  "construct_at (A @ C @ Raw # B) (length A + length C) x = Some (A @ C @ Live x # B)"
  using construct_at_app [of "A @ C" B x] by simp

lemma destroy_at_app: "destroy_at (length A) (A @ Live x # B) tr = Some (A @ Raw # B, tr @ [Destroyed x])"
  by (simp add: destroy_at_def object_at_app)

lemma destroy_n_app:
  "destroy_n (length A) (length xs) (A @ map Live xs @ B) tr
     = Some (A @ replicate (length xs) Raw @ B, tr @ map Destroyed xs)"
proof (induction xs arbitrary: A tr)
  case Nil
  show ?case by simp
next
  case (Cons x xs)
  have "destroy_n (Suc (length A)) (length xs) ((A @ [Raw]) @ map Live xs @ B) (tr @ [Destroyed x])
          = Some ((A @ [Raw]) @ replicate (length xs) Raw @ B, (tr @ [Destroyed x]) @ map Destroyed xs)"
    using Cons.IH [where A = "A @ [Raw]" and tr = "tr @ [Destroyed x]"] by simp
  then show ?case by (simp add: destroy_at_app)
qed

lemma value_construct_loop_app:
  "case value_construct_loop E (length A) (length A + length ds) n
          (A @ map Live ds @ replicate n Raw @ B) tr of
     Return r \<Rightarrow> r = (A @ map Live ds @ replicate n (Live (default_value E)) @ B,
                      tr @ replicate n (DefaultConstructed (default_value E)))
   | Throw e (m', tr') \<Rightarrow>
       e = element_exn \<and> m' = A @ replicate (length ds + n) Raw @ B \<and> \<not> nothrow_env E
   | Undefined \<Rightarrow> False"
proof (induction n arbitrary: ds tr)
  case 0
  show ?case by simp
next
  case (Suc n)
  have step: "construct_at (A @ map Live ds @ Raw # replicate n Raw @ B) (length A + length ds) (default_value E)
       = Some (A @ map Live (ds @ [default_value E]) @ replicate n Raw @ B)"
    using construct_at_app2 [of A "map Live ds" "replicate n Raw @ B" "default_value E"] by simp
  have rb: "destroy_n (length A) (length ds) (A @ map Live ds @ Raw # replicate n Raw @ B) tr
       = Some (A @ replicate (length ds) Raw @ Raw # replicate n Raw @ B, tr @ map Destroyed ds)"
    using destroy_n_app [of A ds "Raw # replicate n Raw @ B" tr] by simp
  show ?case
  proof (cases "default_throws E tr")
    case True
    then have "\<not> nothrow_env E" by (auto simp: nothrow_env_def)
    with True show ?thesis using rb by (simp add: replicate_app_Cons_same replicate_add)
  next
    case False
    then show ?thesis
      using Suc.IH [where ds = "ds @ [default_value E]" and tr = "tr @ [DefaultConstructed (default_value E)]"] step
      by (auto simp: replicate_append_same split: outcome.splits)
  qed
qed


lemma copy_construct_loop_app:
  "case copy_construct_loop E (S @ map Live xs @ S2) (length S) (length xs) (length A)
          (length A + length ds) (A @ map Live ds @ replicate (length xs) Raw @ B) tr of
     Return r \<Rightarrow> r = (A @ map Live ds @ map Live xs @ B, tr @ map Copied xs)
   | Throw e (m', tr') \<Rightarrow>
       e = element_exn \<and> m' = A @ replicate (length ds + length xs) Raw @ B
       \<and> (\<exists>j<length xs. tr' = tr @ map Copied (take j xs) @ map Destroyed (ds @ take j xs))
       \<and> \<not> nothrow_env E
   | Undefined \<Rightarrow> False"
proof (induction xs arbitrary: S ds tr)
  case Nil
  show ?case by simp
next
  case (Cons x xs)
  let ?n = "length xs"
  have rd: "object_at (S @ map Live (x # xs) @ S2) (length S) = Some x"
    using object_at_app [of S x "map Live xs @ S2"] by simp
  have step: "construct_at (A @ map Live ds @ Raw # replicate ?n Raw @ B) (length A + length ds) x
       = Some (A @ map Live (ds @ [x]) @ replicate ?n Raw @ B)"
    using construct_at_app2 [of A "map Live ds" "replicate ?n Raw @ B" x] by simp
  have rb: "destroy_n (length A) (length ds) (A @ map Live ds @ Raw # replicate ?n Raw @ B) tr
       = Some (A @ replicate (length ds) Raw @ Raw # replicate ?n Raw @ B, tr @ map Destroyed ds)"
    using destroy_n_app [of A ds "Raw # replicate ?n Raw @ B" tr] by simp
  show ?case
  proof (cases "copy_throws E tr x")
    case True
    then have "\<not> nothrow_env E" by (auto simp: nothrow_env_def)
    moreover have "\<exists>j<Suc ?n. tr @ map Destroyed ds
            = tr @ map Copied (take j (x # xs)) @ map Destroyed ds @ map Destroyed (take j (x # xs))"
      by (rule exI [of _ 0]) simp
    ultimately show ?thesis using True using rb rd by (simp add: replicate_app_Cons_same replicate_add)
  next
    case False
    have ex: "\<And>j. j < ?n \<Longrightarrow>
        \<exists>i<Suc ?n. tr @ Copied x # map Copied (take j xs) @ map Destroyed ds @ Destroyed x # map Destroyed (take j xs)
          = tr @ map Copied (take i (x # xs)) @ map Destroyed ds @ map Destroyed (take i (x # xs))"
      subgoal for j by (rule exI [of _ "Suc j"]) simp
      done
    from False show ?thesis
      using Cons.IH [where S = "S @ [Live x]" and ds = "ds @ [x]" and tr = "tr @ [Copied x]"] step rd ex
      by (auto simp: replicate_append_same split: outcome.splits)
  qed
qed

lemma move_construct_loop_app:
  "case move_construct_loop E (length S) (length xs) (length A) (length A + length ds)
          (S @ map Live xs @ S2) (A @ map Live ds @ replicate (length xs) Raw @ B) tr of
     Return r \<Rightarrow> r = (S @ map Live (map (moved_from E) xs) @ S2,
                      A @ map Live ds @ map Live xs @ B, tr @ map Moved xs)
   | Throw e (src', m', tr') \<Rightarrow>
       e = element_exn \<and> m' = A @ replicate (length ds + length xs) Raw @ B
       \<and> (\<exists>ys. length ys = length xs \<and> src' = S @ map Live ys @ S2)
       \<and> \<not> nothrow_env E
   | Undefined \<Rightarrow> False"
proof (induction xs arbitrary: S ds tr)
  case Nil
  show ?case by simp
next
  case (Cons x xs)
  let ?n = "length xs"
  have rd: "object_at (S @ map Live (x # xs) @ S2) (length S) = Some x"
    using object_at_app [of S x "map Live xs @ S2"] by simp
  have upd: "(S @ map Live (x # xs) @ S2)[length S := Live (moved_from E x)]
       = (S @ [Live (moved_from E x)]) @ map Live xs @ S2"
    by simp
  have step: "construct_at (A @ map Live ds @ Raw # replicate ?n Raw @ B) (length A + length ds) x
       = Some (A @ map Live (ds @ [x]) @ replicate ?n Raw @ B)"
    using construct_at_app2 [of A "map Live ds" "replicate ?n Raw @ B" x] by simp
  have rb: "destroy_n (length A) (length ds) (A @ map Live ds @ Raw # replicate ?n Raw @ B) tr
       = Some (A @ replicate (length ds) Raw @ Raw # replicate ?n Raw @ B, tr @ map Destroyed ds)"
    using destroy_n_app [of A ds "Raw # replicate ?n Raw @ B" tr] by simp
  show ?case
  proof (cases "move_throws E tr x")
    case True
    then have "\<not> nothrow_env E" by (auto simp: nothrow_env_def)
    moreover have "\<exists>ys. length ys = Suc ?n \<and> Live x # map Live xs = map Live ys"
      by (rule exI [of _ "x # xs"]) simp
    ultimately show ?thesis using True rb rd
      by (auto simp: replicate_app_Cons_same replicate_add)
  next
    case False
    have ex: "\<And>ys. length ys = ?n \<Longrightarrow>
        \<exists>zs. length zs = Suc ?n \<and> Live (moved_from E x) # map Live ys = map Live zs"
      subgoal for ys by (rule exI [of _ "moved_from E x # ys"]) simp
      done
    from False show ?thesis
      using Cons.IH [where S = "S @ [Live (moved_from E x)]" and ds = "ds @ [x]" and tr = "tr @ [Moved x]"] step rd upd ex
      by (auto simp: replicate_append_same simp del: list_update_append list_update_length split: outcome.splits)
  qed
qed

lemma copy_assign_loop_app:
  "length ys = length xs \<Longrightarrow>
   (case copy_assign_loop E (S @ map Live xs @ S2) (length S) (length xs) (length A)
          (A @ map Live ys @ B) tr of
     Return r \<Rightarrow> r = (A @ map Live xs @ B, tr @ map CopyAssigned xs)
   | Throw e (m', tr') \<Rightarrow>
       e = element_exn \<and> (\<exists>zs. length zs = length xs \<and> m' = A @ map Live zs @ B)
       \<and> \<not> nothrow_env E
   | Undefined \<Rightarrow> False)"
proof (induction xs arbitrary: S A ys tr)
  case Nil
  then show ?case by simp
next
  case (Cons x xs)
  then obtain y ys' where ys: "ys = y # ys'" and len: "length ys' = length xs"
    by (cases ys) auto
  have rd: "object_at (S @ map Live (x # xs) @ S2) (length S) = Some x"
    using object_at_app [of S x "map Live xs @ S2"] by simp
  have rd2: "object_at (A @ map Live ys @ B) (length A) = Some y"
    using object_at_app [of A y "map Live ys' @ B"] ys by simp
  have upd: "(A @ map Live ys @ B)[length A := Live x] = (A @ [Live x]) @ map Live ys' @ B"
    using ys by simp
  show ?case
  proof (cases "copy_assign_throws E tr y x")
    case True
    then have "\<not> nothrow_env E" by (auto simp: nothrow_env_def)
    moreover have "\<exists>zs. length zs = Suc (length xs) \<and> map Live ys = map Live zs"
      by (rule exI [of _ ys]) (simp add: ys len)
    ultimately show ?thesis using True rd rd2 by auto
  next
    case False
    have ex: "\<And>zs. length zs = length xs \<Longrightarrow>
        \<exists>ws. length ws = Suc (length xs) \<and> Live x # map Live zs = map Live ws"
      subgoal for zs by (rule exI [of _ "x # zs"]) simp
      done
    from False show ?thesis
      using Cons.IH [where ys = ys' and S = "S @ [Live x]" and A = "A @ [Live x]" and tr = "tr @ [CopyAssigned x]"] len rd rd2 upd ex
      by (auto simp del: list_update_append list_update_length split: outcome.splits)
  qed
qed


lemma move_assign_loop_app:
  "case move_assign_loop E (Suc (length A)) (length xs) (length A) (A @ Live y # map Live xs @ B) tr of
     Return r \<Rightarrow> r = (A @ map Live xs @ Live (if xs = [] then y else moved_from E (last xs)) # B,
                      tr @ map MoveAssigned xs)
   | Throw e (m', tr') \<Rightarrow>
       e = element_exn \<and> (\<exists>zs. length zs = Suc (length xs) \<and> m' = A @ map Live zs @ B)
       \<and> \<not> nothrow_env E
   | Undefined \<Rightarrow> False"
proof (induction xs arbitrary: A y tr)
  case Nil
  show ?case by simp
next
  case (Cons x xs)
  let ?m = "A @ Live y # map Live (x # xs) @ B"
  have rd: "object_at ?m (Suc (length A)) = Some x"
    using object_at_app [of "A @ [Live y]" x "map Live xs @ B"] by simp
  have rd2: "object_at ?m (length A) = Some y"
    using object_at_app [of A y "map Live (x # xs) @ B"] by simp
  have upd: "?m[length A := Live x, Suc (length A) := Live (moved_from E x)]
       = (A @ [Live x]) @ Live (moved_from E x) # map Live xs @ B"
    using list_update_length [of "A @ [Live x]" "Live x" "map Live xs @ B" "Live (moved_from E x)"]
    by simp
  show ?case
  proof (cases "move_assign_throws E tr y x")
    case True
    then have "\<not> nothrow_env E" by (auto simp: nothrow_env_def)
    moreover have "\<exists>zs. length zs = Suc (Suc (length xs)) \<and> Live y # Live x # map Live xs = map Live zs"
      by (rule exI [of _ "y # x # xs"]) simp
    ultimately show ?thesis using True rd rd2 by auto
  next
    case False
    have ex: "\<And>zs. length zs = Suc (length xs) \<Longrightarrow>
        \<exists>ws. length ws = Suc (Suc (length xs)) \<and> Live x # map Live zs = map Live ws"
      subgoal for zs by (rule exI [of _ "x # zs"]) simp
      done
    from False show ?thesis
      using Cons.IH [where A = "A @ [Live x]" and y = "moved_from E x" and tr = "tr @ [MoveAssigned x]"]
        rd rd2 upd ex
      by (auto simp del: list_update_append list_update_length list_update.simps split: outcome.splits)
  qed
qed

lemma move_backward_loop_app:
  "case move_backward_loop E (length xs) (length A + length xs) (Suc (length A + length xs))
          (A @ map Live xs @ Live y # B) tr of
     Return r \<Rightarrow> r = (A @ Live (if xs = [] then y else moved_from E (hd xs)) # map Live xs @ B,
                      tr @ map MoveAssigned (rev xs))
   | Throw e (m', tr') \<Rightarrow>
       e = element_exn \<and> (\<exists>zs. length zs = Suc (length xs) \<and> m' = A @ map Live zs @ B)
       \<and> \<not> nothrow_env E
   | Undefined \<Rightarrow> False"
proof (induction xs arbitrary: y B tr rule: rev_induct)
  case Nil
  show ?case by simp
next
  case (snoc x xs)
  let ?m = "A @ map Live (xs @ [x]) @ Live y # B"
  let ?p = "length A + length xs"
  have rd: "object_at ?m ?p = Some x"
    using object_at_app2 [of A "map Live xs" x "Live y # B"] by simp
  have rd2: "object_at ?m (Suc ?p) = Some y"
    using object_at_app2 [of A "map Live (xs @ [x])" y B] by simp
  have u1: "?m[Suc ?p := Live x] = A @ map Live xs @ Live x # Live x # B"
    using list_update_length [of "A @ map Live (xs @ [x])" "Live y" B "Live x"] by simp
  have u2: "(A @ map Live xs @ Live x # Live x # B)[?p := Live (moved_from E x)]
       = A @ map Live xs @ Live (moved_from E x) # Live x # B"
    using list_update_length [of "A @ map Live xs" "Live x" "Live x # B" "Live (moved_from E x)"] by simp
  have upd: "?m[Suc ?p := Live x, ?p := Live (moved_from E x)]
       = A @ map Live xs @ Live (moved_from E x) # Live x # B"
    using u1 u2 by simp
  show ?case
  proof (cases "move_assign_throws E tr y x")
    case True
    then have "\<not> nothrow_env E" by (auto simp: nothrow_env_def)
    moreover have "\<exists>zs. length zs = Suc (Suc (length xs)) \<and> map Live xs @ Live x # Live y # B = map Live zs @ B"
      by (rule exI [of _ "xs @ [x, y]"]) simp
    ultimately show ?thesis using True rd rd2 by auto
  next
    case False
    have ex: "\<And>zs. length zs = Suc (length xs) \<Longrightarrow>
        \<exists>ws. length ws = Suc (Suc (length xs)) \<and> map Live zs @ Live x # B = map Live ws @ B"
      subgoal for zs by (rule exI [of _ "zs @ [x]"]) simp
      done
    from False show ?thesis
      using snoc.IH [where y = "moved_from E x" and B = "Live x # B" and tr = "tr @ [MoveAssigned x]"]
        rd rd2 upd ex
      by (auto simp del: list_update_append list_update_length list_update.simps split: outcome.splits)
  qed
qed


section \<open>Facts about well-formed vectors\<close>

lemma slots_block_ptr [simp]: "slots (block_ptr m) = m"
  by (simp add: slots_def block_ptr_def)

lemma store_block_ptr: "length m' = length m \<Longrightarrow> store (block_ptr m) m' = block_ptr m'"
  by (auto simp: store_def block_ptr_def)

lemma rm_slots_simp [simp]: "rm_slots \<lparr>rm_buffer = p, rm_capacity = c\<rparr> = slots p"
  by (simp add: rm_slots_def)

lemma rm_store_simp [simp]:
  "rm_store \<lparr>rm_buffer = p, rm_capacity = c\<rparr> m = \<lparr>rm_buffer = store p m, rm_capacity = c\<rparr>"
  by (simp add: rm_store_def)

lemma vec_of_simps [simp]:
  "buffer (vec_of xs k) = map Live xs @ replicate k Raw"
  "vec_size (vec_of xs k) = length xs"
  "Capacity (vec_of xs k) = length xs + k"
  "Size (vec_of xs k) = length xs"
  "rm_capacity (vec_data (vec_of xs k)) = length xs + k"
  "rm_buffer (vec_data (vec_of xs k)) = block_ptr (map Live xs @ replicate k Raw)"
  by (simp_all add: vec_of_def buffer_def Capacity_def RawMemory_Capacity_def Size_def)

lemma with_buffer_vec_of:
  "length ys = length xs \<Longrightarrow> with_buffer (vec_of xs k) (map Live ys @ replicate k Raw) = vec_of ys k"
  by (simp add: with_buffer_def vec_of_def store_block_ptr)

lemma all_live: "list_all (\<lambda>s. s \<noteq> Raw) m \<Longrightarrow> \<exists>xs. m = map Live xs"
proof (induction m)
  case Nil
  show ?case by simp
next
  case (Cons s m)
  then obtain xs where "m = map Live xs" by auto
  moreover from Cons.prems obtain x where "s = Live x" by (cases s) auto
  ultimately have "s # m = map Live (x # xs)" by simp
  then show ?case by (rule exI [of _ "x # xs"])
qed

lemma all_raw: "list_all (\<lambda>s. s = Raw) m \<Longrightarrow> m = replicate (length m) Raw"
  by (induction m) auto

lemma wf_vec_of [simp]: "wf (vec_of xs k)"
  by (simp add: wf_def list_all_iff)

lemma vec_data_eq:
  "rm_buffer d = p \<Longrightarrow> rm_capacity d = c \<Longrightarrow> d = \<lparr>rm_buffer = p, rm_capacity = c\<rparr>"
  by (cases d) simp

lemma wf_imp_vec_of:
  assumes "wf v"
  shows "\<exists>xs k. v = vec_of xs k"
proof -
  let ?m = "buffer v"
  from assms obtain xs where xs: "take (vec_size v) ?m = map Live xs"
    using all_live unfolding wf_def by blast
  from assms have raw: "drop (vec_size v) ?m = replicate (length ?m - vec_size v) Raw"
    using all_raw [of "drop (vec_size v) ?m"] unfolding wf_def by simp
  have len: "length xs = vec_size v"
    using assms arg_cong [OF xs, of length] unfolding wf_def by simp
  have "?m = map Live xs @ replicate (length ?m - vec_size v) Raw"
    using append_take_drop_id [of "vec_size v" ?m] xs raw by simp
  moreover have "rm_capacity (vec_data v) = length xs + (length ?m - vec_size v)"
    using assms len unfolding wf_def by simp
  moreover have "rm_buffer (vec_data v) = block_ptr ?m"
    using assms unfolding wf_def by simp
  ultimately have "vec_data v = \<lparr>rm_buffer = block_ptr (map Live xs @ replicate (length ?m - vec_size v) Raw),
        rm_capacity = length xs + (length ?m - vec_size v)\<rparr>"
    using vec_data_eq [of "vec_data v"] by simp
  then have "v = vec_of xs (length ?m - vec_size v)"
    using len by (cases v) (simp add: vec_of_def)
  then show ?thesis by blast
qed

lemma at_vec_of: "at (vec_of xs k) i = (if i < length xs then Some (xs ! i) else None)"
  by (simp add: at_def RawMemory_index_def object_at_def nth_append)

lemma contents_vec_of [simp]: "contents (vec_of xs k) = map Some xs"
  by (rule nth_equalityI) (simp_all add: contents_def at_vec_of)


section \<open>Facts that hold for every vector\<close>

lemma size_t_small: "n < 2 ^ 64 \<Longrightarrow> size_t n = n"
  by (simp add: size_t_def)

lemma size_t_le: "size_t n \<le> n"
  by (simp add: size_t_def)

lemma size_t_wrap: "2 ^ 64 \<le> n \<Longrightarrow> size_t n + 2 ^ 64 \<le> n"
proof -
  assume a: "(2 :: nat) ^ 64 \<le> n"
  have "size_t n = size_t (n - 2 ^ 64)"
    using a unfolding size_t_def by (simp add: le_mod_geq)
  also have "\<dots> \<le> n - 2 ^ 64" by (rule size_t_le)
  finally show ?thesis using a by simp
qed

lemma size_t_lt: "size_t n < 2 ^ 64"
  by (simp add: size_t_def)

lemma block_slots_le: "block_slots E n \<le> n"
proof (cases "sizeof_T E = 0")
  case True
  then show ?thesis by (simp add: block_slots_def)
next
  case False
  have "size_t (n * sizeof_T E) div sizeof_T E \<le> (n * sizeof_T E) div sizeof_T E"
    by (rule div_le_mono) (rule size_t_le)
  with False show ?thesis by (simp add: block_slots_def)
qed

lemma block_slots_fits: "fits E n \<Longrightarrow> block_slots E n = n"
  by (simp add: fits_def block_slots_def size_t_small)

lemma fits_lt: "fits E n \<Longrightarrow> n < 2 ^ 64"
proof -
  assume f: "fits E n"
  then have "n \<le> n * sizeof_T E" unfolding fits_def by (cases "sizeof_T E") simp_all
  moreover from f have "n * sizeof_T E < 2 ^ 64" unfolding fits_def by blast
  ultimately show ?thesis by (rule le_less_trans)
qed

lemma grown_fits: "fits E (doubled_cap n) \<Longrightarrow> grown n = doubled_cap n"
proof -
  assume "fits E (doubled_cap n)"
  then have "doubled_cap n < 2 ^ 64" by (rule fits_lt)
  then have "size_t (doubled_cap n) = doubled_cap n" by (rule size_t_small)
  then show ?thesis by (cases "n = 0") (simp_all add: grown_def doubled_cap_def mult.commute)
qed

text \<open>
  A block that has more than \<open>k\<close> slots when \<open>grown k\<close> objects were asked for: nothing has
  wrapped.
\<close>

lemma room_fits:
  assumes "k < block_slots E (grown k)"
  shows "fits E (doubled_cap k)"
proof -
  let ?s = "sizeof_T E"
  let ?M = "(2 :: nat) ^ 64"
  from assms have s: "0 < ?s" by (cases "?s = 0") (simp_all add: block_slots_def)
  from assms block_slots_le [of E "grown k"] have kg: "k < grown k" by simp
  have g: "grown k = doubled_cap k"
  proof (cases "k = 0")
    case True
    then show ?thesis by (simp add: grown_def doubled_cap_def)
  next
    case False
    have "k * 2 < ?M"
    proof (rule ccontr)
      assume "\<not> k * 2 < ?M"
      then have "size_t (k * 2) + ?M \<le> k * 2" by (intro size_t_wrap) simp
      moreover have "size_t (k * 2) < ?M" by (rule size_t_lt)
      ultimately have "size_t (k * 2) \<le> k" by simp
      with kg False show False by (simp add: grown_def)
    qed
    with False show ?thesis by (simp add: grown_def doubled_cap_def size_t_small mult.commute)
  qed
  let ?n = "doubled_cap k"
  have "?n * ?s < ?M"
  proof (rule ccontr)
    assume "\<not> ?n * ?s < ?M"
    then have w: "size_t (?n * ?s) + ?M \<le> ?n * ?s" by (intro size_t_wrap) simp
    have lt: "size_t (?n * ?s) < ?M" by (rule size_t_lt)
    from assms g have "Suc k \<le> size_t (?n * ?s) div ?s" by (simp add: block_slots_def)
    then have "Suc k * ?s \<le> size_t (?n * ?s)"
      using s by (simp add: less_eq_div_iff_mult_less_eq)
    moreover have "?n \<le> 2 * Suc k" by (simp add: doubled_cap_def)
    then have "?n * ?s \<le> 2 * Suc k * ?s" by (rule mult_le_mono1)
    ultimately have "?n * ?s \<le> 2 * size_t (?n * ?s)" by simp
    with w lt show False by simp
  qed
  with s show ?thesis by (simp add: fits_def)
qed

lemma RawMemory_ctor_return:
  assumes "RawMemory_ctor E n tr = Return (d, tr')"
  shows "rm_capacity d = n
     \<and> (if n = 0 then rm_buffer d = Null \<and> tr' = tr
         else rm_buffer d = Block (replicate (block_slots E n) Raw)
              \<and> tr' = tr @ [Allocated (block_slots E n)])"
  using assms
  by (auto simp: RawMemory_ctor_def Allocate_def operator_new_def block_slots_def
      split: if_splits)

lemma RawMemory_ctor_throw:
  assumes "RawMemory_ctor E n tr = Throw e tr'"
  shows "e = bad_alloc \<and> tr' = tr \<and> \<not> nothrow_env E"
  using assms
  by (auto simp: RawMemory_ctor_def Allocate_def operator_new_def nothrow_env_def
      split: if_splits)

lemma RawMemory_ctor_defined: "RawMemory_ctor E n tr \<noteq> Undefined"
  by (simp add: RawMemory_ctor_def Allocate_def operator_new_def)

lemma RawMemory_ctor_slots:
  assumes "RawMemory_ctor E n tr = Return (d, tr')"
  shows "rm_slots d = replicate (block_slots E n) Raw"
proof (cases "n = 0")
  case True
  have "block_slots E 0 = 0" using block_slots_le [of E 0] by simp
  with True RawMemory_ctor_return [OF assms] show ?thesis by (simp add: rm_slots_def slots_def)
next
  case False
  with RawMemory_ctor_return [OF assms] show ?thesis by (simp add: rm_slots_def slots_def)
qed

lemma construct_at_Some: "construct_at m p x = Some m' \<Longrightarrow> p < length m \<and> length m' = length m"
  by (auto simp: construct_at_def split: if_splits)

lemma copy_construct_loop_room:
  "copy_construct_loop E src f n d cur m tr = Return (m', tr') \<Longrightarrow>
   length m' = length m \<and> (n \<noteq> 0 \<longrightarrow> cur + n \<le> length m)"
proof (induction n arbitrary: f cur m tr)
  case 0
  then show ?case by simp
next
  case (Suc n)
  from Suc.prems obtain x m1 where
    c: "construct_at m cur x = Some m1"
    and r: "copy_construct_loop E src (Suc f) n d (Suc cur) m1 (tr @ [Copied x]) = Return (m', tr')"
    by (auto split: option.splits if_splits)
  from construct_at_Some [OF c] Suc.IH [OF r] show ?case by (cases n) auto
qed

lemma move_construct_loop_room:
  "move_construct_loop E f n d cur src m tr = Return (src', m', tr') \<Longrightarrow>
   length m' = length m \<and> (n \<noteq> 0 \<longrightarrow> cur + n \<le> length m)"
proof (induction n arbitrary: f cur src m tr)
  case 0
  then show ?case by simp
next
  case (Suc n)
  from Suc.prems obtain x m1 where
    c: "construct_at m cur x = Some m1"
    and r: "move_construct_loop E (Suc f) n d (Suc cur) (src[f := Live (moved_from E x)]) m1
              (tr @ [Moved x]) = Return (src', m', tr')"
    by (auto split: option.splits if_splits)
  from construct_at_Some [OF c] Suc.IH [OF r] show ?case by (cases n) auto
qed

lemma relocate_n_room:
  assumes "relocate_n E src f n m d tr = Return (src', m', tr')"
  shows "length m' = length m \<and> (n \<noteq> 0 \<longrightarrow> d + n \<le> length m)"
proof (cases "is_nothrow_move_constructible E \<or> \<not> is_copy_constructible E")
  case True
  with assms have "move_construct_loop E f n d d src m tr = Return (src', m', tr')"
    by (simp add: relocate_n_def uninitialized_move_n_def)
  then show ?thesis by (rule move_construct_loop_room)
next
  case False
  with assms have "copy_construct_loop E src f n d d m tr = Return (m', tr')"
    by (auto simp: relocate_n_def uninitialized_copy_n_def split: outcome.splits)
  then show ?thesis by (rule copy_construct_loop_room)
qed

lemma relocate_n_copy_path:
  assumes "is_copy_constructible E" and "\<not> is_nothrow_move_constructible E"
  shows "relocate_n E src f n m d tr = Return (src', m', tr') \<Longrightarrow> src' = src"
    and "relocate_n E src f n m d tr = Throw e (src', m', tr') \<Longrightarrow> src' = src"
  using assms by (auto simp: relocate_n_def split: outcome.splits)

lemma destroy_n_length: "destroy_n f n m tr = Some (m', tr') \<Longrightarrow> length m' = length m"
proof (induction n arbitrary: f m tr)
  case 0
  then show ?case by simp
next
  case (Suc n)
  then show ?case
    by (fastforce simp: destroy_at_def split: option.splits)
qed

lemma store_slots [simp]: "store p (slots p) = p"
  by (cases p) (simp_all add: store_def slots_def)

lemma with_buffer_buffer [simp]: "with_buffer v (buffer v) = v"
  by (simp add: with_buffer_def buffer_def rm_store_def rm_slots_def)

lemma with_buffer_numbers [simp]:
  "vec_size (with_buffer v m) = vec_size v"
  "Capacity (with_buffer v m) = Capacity v"
  "rm_capacity (vec_data (with_buffer v m)) = rm_capacity (vec_data v)"
  by (simp_all add: with_buffer_def Capacity_def RawMemory_Capacity_def rm_store_def)

lemma rm_store_capacity [simp]: "rm_capacity (rm_store d m) = rm_capacity d"
  by (simp add: rm_store_def)

lemma replace_storage_numbers:
  assumes "replace_storage v new_data tr = Some (v1, tr1)"
  shows "vec_size v1 = vec_size v \<and> vec_data v1 = new_data"
  using assms
  by (auto simp: replace_storage_def RawMemory_Swap_def split: option.splits)

lemma unwind_cases:
  "unwind new_data e v tr = Throw e' (v', tr') \<Longrightarrow> e' = e \<and> v' = v"
  "unwind new_data e v tr \<noteq> Return r"
  by (auto simp: unwind_def split: option.splits)

section \<open>The operations on a well-formed vector\<close>

lemma relocate_n_app:
  "case relocate_n E (S @ map Live xs @ S2) (length S) (length xs)
          (A @ replicate (length xs) Raw @ B) (length A) tr of
     Return (src', m', tr') \<Rightarrow>
       m' = A @ map Live xs @ B
       \<and> (\<exists>ys. length ys = length xs \<and> src' = S @ map Live ys @ S2)
       \<and> (is_copy_constructible E \<and> \<not> is_nothrow_move_constructible E \<longrightarrow>
            src' = S @ map Live xs @ S2)
   | Throw e (src', m', tr') \<Rightarrow>
       e = element_exn \<and> m' = A @ replicate (length xs) Raw @ B
       \<and> (\<exists>ys. length ys = length xs \<and> src' = S @ map Live ys @ S2)
       \<and> (is_copy_constructible E \<and> \<not> is_nothrow_move_constructible E \<longrightarrow>
            src' = S @ map Live xs @ S2
            \<and> (\<exists>j<length xs. tr' = tr @ map Copied (take j xs) @ map Destroyed (take j xs)))
       \<and> \<not> nothrow_env E
   | Undefined \<Rightarrow> False"
proof (cases "is_nothrow_move_constructible E \<or> \<not> is_copy_constructible E")
  case True
  have "\<exists>ys. length ys = length xs \<and> map Live (map (moved_from E) xs) = map Live ys"
    by (rule exI [of _ "map (moved_from E) xs"]) simp
  then show ?thesis
    using True move_construct_loop_app [where E = E and S = S and xs = xs and A = A and ds = "[]" and ?S2.0 = S2 and B = B and tr = tr]
    by (auto simp: relocate_n_def uninitialized_move_n_def split: outcome.splits)
next
  case False
  have "\<exists>ys. length ys = length xs \<and> map Live xs = map Live ys"
    by (rule exI [of _ xs]) simp
  then show ?thesis
    using False copy_construct_loop_app [where E = E and S = S and xs = xs and A = A and ds = "[]" and ?S2.0 = S2 and B = B and tr = tr]
    by (auto simp: relocate_n_def uninitialized_copy_n_def split: outcome.splits)
qed

lemma RawMemory_ctor_cases:
  assumes "fits E n"
  shows "RawMemory_ctor E n tr =
     (if n \<noteq> 0 \<and> new_throws E tr (n * sizeof_T E) then Throw bad_alloc tr
      else Return (\<lparr>rm_buffer = block_ptr (replicate n Raw), rm_capacity = n\<rparr>,
                   if n = 0 then tr else tr @ [Allocated n]))"
proof -
  from assms have "size_t (n * sizeof_T E) = n * sizeof_T E" and "0 < sizeof_T E"
    by (simp_all add: fits_def size_t_small)
  then show ?thesis
    by (simp add: RawMemory_ctor_def Allocate_def operator_new_def block_ptr_def)
qed

lemma Deallocate_block_ptr [simp]: "Deallocate (block_ptr m) tr = Some (released m tr)"
  by (simp add: Deallocate_def operator_delete_def block_ptr_def released_def)

lemma RawMemory_dtor_block [simp]:
  "RawMemory_dtor \<lparr>rm_buffer = block_ptr m, rm_capacity = c\<rparr> tr = Some (released m tr)"
  by (simp add: RawMemory_dtor_def)

lemma unwind_block [simp]:
  "unwind \<lparr>rm_buffer = block_ptr m, rm_capacity = c\<rparr> e v tr = Throw e (v, released m tr)"
  by (simp add: unwind_def)

lemma store_replicate [simp]:
  "length m = n \<Longrightarrow> store (block_ptr (replicate n Raw)) m = block_ptr m"
  by (simp add: store_block_ptr)

lemma replace_storage_vec:
  "replace_storage (vec_of ys k) \<lparr>rm_buffer = p, rm_capacity = c\<rparr> tr
     = Some (\<lparr>vec_data = \<lparr>rm_buffer = p, rm_capacity = c\<rparr>, vec_size = length ys\<rparr>,
             released (replicate (length ys) Raw @ replicate k Raw) (tr @ map Destroyed ys))"
  using destroy_n_app [where A = "[]" and xs = ys and B = "replicate k Raw" and tr = tr]
  by (simp add: replace_storage_def vec_of_def buffer_def RawMemory_Swap_def store_block_ptr)

lemma vec_of_eq:
  "\<lparr>vec_data = \<lparr>rm_buffer = block_ptr (map Live xs @ replicate k Raw), rm_capacity = length xs + k\<rparr>,
    vec_size = length xs\<rparr> = vec_of xs k"
  by (simp add: vec_of_def)

lemma released_raw [simp]: "released (replicate (Suc n) Raw) tr = tr @ [Deallocated (replicate (Suc n) Raw)]"
  by (simp add: released_def)

lemma Reserve_vec_add:
  assumes "k < d" and "fits E (length xs + d)"
  shows "case Reserve E (length xs + d) (vec_of xs k) tr of
     Return (v', tr') \<Rightarrow> v' = vec_of xs d
   | Throw e (v', tr') \<Rightarrow>
       (\<exists>ys. length ys = length xs \<and> v' = vec_of ys k)
       \<and> (is_copy_constructible E \<and> \<not> is_nothrow_move_constructible E \<longrightarrow>
            v' = vec_of xs k
            \<and> (e = element_exn \<longrightarrow>
                 (\<exists>j<length xs. tr' = tr @ Allocated (length xs + d) # map Copied (take j xs)
                     @ map Destroyed (take j xs) @ [Deallocated (replicate (length xs + d) Raw)])))
       \<and> \<not> nothrow_env E
   | Undefined \<Rightarrow> False"
proof (cases "new_throws E tr ((length xs + d) * sizeof_T E)")
  case True
  then have "\<not> nothrow_env E" by (auto simp: nothrow_env_def)
  moreover have "\<exists>ys. length ys = length xs \<and> vec_of xs k = vec_of ys k" by blast
  ultimately show ?thesis
    using True assms by (simp add: Reserve_def RawMemory_ctor_cases)
next
  case False
  have e: "replicate (length xs) Raw @ replicate d Raw = replicate (length xs + d) (Raw :: 'a slot)"
    by (simp add: replicate_add)
  have ne: "replicate (length xs + d) (Raw :: 'a slot) \<noteq> []"
    using assms(1) by simp
  have rel: "released (replicate (length xs) Raw @ replicate d Raw) t
      = t @ [Deallocated (replicate (length xs + d) Raw)]" for t :: "'a event list"
    unfolding e released_def using ne by simp
  show ?thesis
    using relocate_n_app [where E = E and S = "[]" and xs = xs and ?S2.0 = "replicate k Raw"
        and A = "[]" and B = "replicate d Raw" and tr = "tr @ [Allocated (length xs + d)]"]
      assms False
    by (auto simp: Reserve_def RawMemory_ctor_cases replace_storage_vec
        with_buffer_vec_of vec_of_eq replicate_add store_block_ptr rel split: outcome.splits)
qed

lemma Reserve_vec:
  assumes "length xs + k < n" and "fits E n"
  shows "case Reserve E n (vec_of xs k) tr of
     Return (v', tr') \<Rightarrow> v' = vec_of xs (n - length xs)
   | Throw e (v', tr') \<Rightarrow>
       (\<exists>ys. length ys = length xs \<and> v' = vec_of ys k)
       \<and> (is_copy_constructible E \<and> \<not> is_nothrow_move_constructible E \<longrightarrow>
            v' = vec_of xs k
            \<and> (e = element_exn \<longrightarrow>
                 (\<exists>j<length xs. tr' = tr @ Allocated n # map Copied (take j xs)
                     @ map Destroyed (take j xs) @ [Deallocated (replicate n Raw)])))
       \<and> \<not> nothrow_env E
   | Undefined \<Rightarrow> False"
proof -
  from assms have "length xs + (n - length xs) = n" and "k < n - length xs" by simp_all
  then show ?thesis
    using Reserve_vec_add [where k = k and d = "n - length xs" and E = E and xs = xs and tr = tr]
      assms(2)
    by (auto split: outcome.splits)
qed

lemma map_Live_eq [simp]: "(map Live xs = map Live ys) = (xs = ys)"
  by (rule inj_map_eq_map) (rule injI, simp)

lemma vec_of_eq_iff [simp]: "vec_of xs k = vec_of ys j \<longleftrightarrow> xs = ys \<and> k = j"
proof
  assume eq: "vec_of xs k = vec_of ys j"
  have len: "length xs = length ys"
    using arg_cong [OF eq, of vec_size] by simp
  have "map Live xs @ replicate k Raw = map Live ys @ replicate j Raw"
    using arg_cong [OF eq, of buffer] by simp
  with len have m: "map Live xs = map Live ys" and r: "replicate k Raw = replicate j (Raw :: 'a slot)"
    by simp_all
  have "xs = ys"
    using m by (rule map_injective) (rule injI, simp)
  moreover have "k = j"
    using arg_cong [OF r, of length] by simp
  ultimately show "xs = ys \<and> k = j" by simp
qed simp

lemma Resize_shrink_vec:
  assumes "zs \<noteq> []"
  shows "Resize E (length ys) (vec_of (ys @ zs) k) tr
     = Return (vec_of ys (length zs + k), tr @ map Destroyed zs)"
proof -
  have "destroy_n (length (map Live ys)) (length zs) (map Live ys @ map Live zs @ replicate k Raw) tr
        = Some (map Live ys @ replicate (length zs) Raw @ replicate k Raw, tr @ map Destroyed zs)"
    by (rule destroy_n_app)
  moreover have "(with_buffer (vec_of (ys @ zs) k) (map Live ys @ replicate (length zs) Raw @ replicate k Raw))
      \<lparr>vec_size := length ys\<rparr> = vec_of ys (length zs + k)"
    by (simp add: with_buffer_def vec_of_def replicate_add store_block_ptr)
  ultimately show ?thesis
    using assms by (simp add: Resize_def)
qed

lemma value_construct_vec:
  "case uninitialized_value_construct_n E (length xs) n (map Live xs @ replicate n Raw @ replicate j Raw) tr of
     Return r \<Rightarrow> r = (map Live (xs @ replicate n (default_value E)) @ replicate j Raw,
                      tr @ replicate n (DefaultConstructed (default_value E)))
   | Throw e (m', tr') \<Rightarrow>
       e = element_exn \<and> m' = map Live xs @ replicate n Raw @ replicate j Raw \<and> \<not> nothrow_env E
   | Undefined \<Rightarrow> False"
  using value_construct_loop_app [where E = E and A = "map Live xs" and ds = "[]" and n = n
      and B = "replicate j Raw" and tr = tr]
  by (auto simp: uninitialized_value_construct_n_def map_replicate split: outcome.splits)

lemma grown_vec:
  "(with_buffer (vec_of xs (d + j)) (map Live (xs @ replicate d x) @ replicate j Raw))
     \<lparr>vec_size := length xs + d\<rparr> = vec_of (xs @ replicate d x) j"
  by (simp add: with_buffer_def vec_of_def store_block_ptr)

lemma with_buffer_same: "with_buffer (vec_of xs k) (map Live xs @ replicate k Raw) = vec_of xs k"
  by (simp add: with_buffer_def vec_of_def store_block_ptr)

lemma Resize_grow_within_vec:
  "case Resize E (length xs + d) (vec_of xs (d + j)) tr of
     Return (v', tr') \<Rightarrow>
       v' = vec_of (xs @ replicate d (default_value E)) j
       \<and> tr' = tr @ replicate d (DefaultConstructed (default_value E))
   | Throw e (v', tr') \<Rightarrow> v' = vec_of xs (d + j) \<and> \<not> nothrow_env E
   | Undefined \<Rightarrow> False"
  using value_construct_vec [where E = E and xs = xs and n = d and j = j and tr = tr]
    grown_vec [of xs d j "default_value E"] with_buffer_same [of xs "d + j"]
  by (auto simp: Resize_def Reserve_def replicate_add simp del: map_append split: outcome.splits)

lemma Resize_grow_realloc_vec:
  assumes "k < d" and "fits E (length xs + d)"
  shows "case Resize E (length xs + d) (vec_of xs k) tr of
     Return (v', tr') \<Rightarrow> v' = vec_of (xs @ replicate d (default_value E)) 0
   | Throw e (v', tr') \<Rightarrow>
       (\<exists>ys j. length ys = length xs \<and> v' = vec_of ys j)
       \<and> (is_copy_constructible E \<and> \<not> is_nothrow_move_constructible E \<longrightarrow>
            (\<exists>j. v' = vec_of xs j))
       \<and> \<not> nothrow_env E
   | Undefined \<Rightarrow> False"
proof (cases "Reserve E (length xs + d) (vec_of xs k) tr")
  case (Return r)
  then obtain tr1 where r: "Reserve E (length xs + d) (vec_of xs k) tr = Return (vec_of xs d, tr1)"
    using Reserve_vec_add [OF assms, where tr = tr] by (cases r) auto
  show ?thesis
    using value_construct_vec [where E = E and xs = xs and n = d and j = 0 and tr = tr1]
      grown_vec [of xs d 0 "default_value E"] with_buffer_same [of xs d]
    by (auto simp: Resize_def r simp del: map_append split: outcome.splits)
next
  case (Throw e s)
  then show ?thesis
    using Reserve_vec_add [OF assms, where tr = tr] by (auto simp: Resize_def)
next
  case Undefined
  then show ?thesis using Reserve_vec_add [OF assms, where tr = tr] by simp
qed

lemma after_construct_length [simp]: "length (after_construct E a xs) = length xs"
  by (simp add: after_construct_def split: ctor_args.splits rvalue.splits)

lemma object_at_vec:
  "object_at (map Live xs @ replicate k Raw) i = (if i < length xs then Some (xs ! i) else None)"
  by (simp add: object_at_def nth_append)

lemma update_vec:
  "i < length xs \<Longrightarrow> (map Live xs @ replicate k Raw)[i := Live y] = map Live (xs[i := y]) @ replicate k Raw"
  by (simp add: list_update_append map_update)

lemma construct_vec:
  "case construct E a (map Live xs @ replicate k Raw) tr of
     Return (x, m, ev) \<Rightarrow>
       built a xs = Some x \<and> m = map Live (after_construct E a xs) @ replicate k Raw
   | Throw e u \<Rightarrow> e = element_exn \<and> (\<not> nothrow_env E \<or> built a xs = None)
   | Undefined \<Rightarrow> built a xs = None"
proof (cases a)
  case (Copy_arg x)
  then show ?thesis
    by (auto simp: construct_def built_def after_construct_def nothrow_env_def)
next
  case (Move_arg r)
  show ?thesis
  proof (cases r)
    case (Object x)
    with Move_arg show ?thesis
      by (auto simp: construct_def built_def after_construct_def nothrow_env_def)
  next
    case (Element i)
    with Move_arg show ?thesis
      by (auto simp: construct_def built_def after_construct_def nothrow_env_def object_at_vec
          update_vec)
  qed
next
  case (Other_args r)
  then show ?thesis
    by (cases r) (auto simp: construct_def built_def after_construct_def)
qed

lemma construct_total:
  assumes "nothrow_env E" and "built a xs = Some x"
  shows "\<exists>ev. construct E a (map Live xs @ replicate k Raw) tr
           = Return (x, map Live (after_construct E a xs) @ replicate k Raw, ev)"
  using construct_vec [where E = E and a = a and xs = xs and k = k and tr = tr] assms
  by (auto split: outcome.splits)

lemma doubled_pos: "doubled_cap n \<noteq> 0"
  by (simp add: doubled_cap_def)

lemma doubled: "doubled_cap (length xs) = length xs + Suc (length xs - 1)"
  by (cases xs) (simp_all add: doubled_cap_def)

lemma construct_at_end:
  "construct_at (map Live xs @ replicate (Suc j) Raw) (length xs) x = Some (map Live (xs @ [x]) @ replicate j Raw)"
  using construct_at_app [of "map Live xs" "replicate j Raw" x] by simp

lemma replicate_split: "replicate (n + Suc j) x = replicate n x @ x # replicate j x"
  by (simp add: replicate_add replicate_append_same)

lemma construct_at_new:
  "construct_at (replicate (doubled_cap (length xs)) Raw) (length xs) x
     = Some (replicate (length xs) Raw @ Live x # replicate (length xs - 1) Raw)"
  unfolding doubled replicate_split
  using construct_at_app [of "replicate (length xs) Raw" "replicate (length xs - 1) Raw" x]
  by (simp del: replicate_app_Cons_same)

lemma pushed_vec:
  "length ys = length xs \<Longrightarrow>
   (with_buffer (vec_of xs (Suc j)) (map Live ys @ Live x # replicate j Raw))
     \<lparr>vec_size := Suc (length xs)\<rparr> = vec_of (ys @ [x]) j"
  by (simp add: with_buffer_def vec_of_def store_block_ptr)

lemma PushBack_spare_vec:
  "case PushBack E a (vec_of xs (Suc j)) tr of
     Return (v', tr') \<Rightarrow>
       \<exists>x. built a xs = Some x \<and> v' = vec_of (after_construct E a xs @ [x]) j
   | Throw e (v', tr') \<Rightarrow> v' = vec_of xs (Suc j) \<and> tr' = tr \<and> (\<not> nothrow_env E \<or> built a xs = None)
   | Undefined \<Rightarrow> built a xs = None"
proof (cases "construct E a (map Live xs @ replicate (Suc j) Raw) tr")
  case (Return r)
  obtain x m ev where r: "r = (x, m, ev)" by (cases r) auto
  from construct_vec [where E = E and a = a and xs = xs and k = "Suc j" and tr = tr] Return r
  have b: "built a xs = Some x" and m: "m = map Live (after_construct E a xs) @ replicate (Suc j) Raw"
    by simp_all
  have ca: "construct_at m (length xs) x = Some (map Live (after_construct E a xs @ [x]) @ replicate j Raw)"
    unfolding m using construct_at_end [of "after_construct E a xs" j x] by simp
  show ?thesis
    using Return r b ca pushed_vec [of "after_construct E a xs" xs j x]
    by (simp add: PushBack_def)
next
  case (Throw e u)
  with construct_vec [where E = E and a = a and xs = xs and k = "Suc j" and tr = tr]
  show ?thesis by (simp add: PushBack_def)
next
  case Undefined
  with construct_vec [where E = E and a = a and xs = xs and k = "Suc j" and tr = tr]
  show ?thesis by (simp add: PushBack_def)
qed

lemma grown_new_vec:
  "\<lparr>vec_data = \<lparr>rm_buffer = Block (map Live xs @ Live x # replicate (length xs - Suc 0) Raw),
                 rm_capacity = doubled_cap (length xs)\<rparr>, vec_size = Suc (length xs)\<rparr>
     = vec_of (xs @ [x]) (length xs - Suc 0)"
  by (simp add: vec_of_def doubled block_ptr_def)

lemma doubled_gt: "n < doubled_cap n"
  by (simp add: doubled_cap_def)

lemma with_buffer_full: "length ys = length xs \<Longrightarrow> with_buffer (vec_of xs 0) (map Live ys) = vec_of ys 0"
  using with_buffer_vec_of [of ys xs 0] by simp

lemma replace_storage_full:
  "replace_storage (vec_of ys 0) \<lparr>rm_buffer = p, rm_capacity = c\<rparr> tr
     = Some (\<lparr>vec_data = \<lparr>rm_buffer = p, rm_capacity = c\<rparr>, vec_size = length ys\<rparr>,
             released (replicate (length ys) Raw) (tr @ map Destroyed ys))"
  using replace_storage_vec [of ys 0 p c tr] by simp

lemma store_new: "store (block_ptr (replicate (doubled_cap n) Raw)) m = Block m"
  by (simp add: store_def block_ptr_def doubled_pos)

lemma RawMemory_dtor_Block [simp]:
  "RawMemory_dtor \<lparr>rm_buffer = Block m, rm_capacity = c\<rparr> tr = Some (tr @ [Deallocated m])"
  by (simp add: RawMemory_dtor_def Deallocate_def operator_delete_def)

lemma unwind_Block [simp]:
  "unwind \<lparr>rm_buffer = Block m, rm_capacity = c\<rparr> e v tr = Throw e (v, tr @ [Deallocated m])"
  by (simp add: unwind_def)

lemma PushBack_full_vec:
  assumes "fits E (doubled_cap (length xs))"
  shows "case PushBack E a (vec_of xs 0) tr of
     Return (v', tr') \<Rightarrow>
       \<exists>x. built a xs = Some x \<and> v' = vec_of (after_construct E a xs @ [x]) (length xs - 1)
   | Throw e (v', tr') \<Rightarrow>
       (\<exists>ys. length ys = length xs \<and> v' = vec_of ys 0) \<and> (\<not> nothrow_env E \<or> built a xs = None)
   | Undefined \<Rightarrow> built a xs = None"
proof -
  let ?c = "doubled_cap (length xs)"
  let ?xs = "after_construct E a xs"
  have g: "grown (length xs) = ?c" using assms by (rule grown_fits)
  note ctor = RawMemory_ctor_cases [OF assms]
  have same: "\<exists>ys. length ys = length xs \<and> vec_of xs 0 = vec_of ys 0" by blast
  show ?thesis
  proof (cases "new_throws E tr (?c * sizeof_T E)")
    case True
    then have "\<not> nothrow_env E" by (auto simp: nothrow_env_def)
    with True same show ?thesis
      by (simp add: PushBack_def g ctor doubled_pos)
  next
    case nt: False
    let ?tr0 = "tr @ [Allocated ?c]"
    note cv = construct_vec [where E = E and a = a and xs = xs and k = 0 and tr = ?tr0, simplified]
    show ?thesis
    proof (cases "construct E a (map Live xs) ?tr0")
      case Undefined
      with nt cv show ?thesis
        by (simp add: PushBack_def g ctor doubled_pos)
    next
      case (Throw e u)
      with nt cv same show ?thesis
        by (simp add: PushBack_def g ctor doubled_pos)
    next
      case (Return r)
      obtain x m ev where r: "r = (x, m, ev)" by (cases r) auto
      from cv Return r have b: "built a xs = Some x" and m: "m = map Live ?xs" by simp_all
      show ?thesis
        using relocate_n_app [where E = E and S = "[]" and xs = ?xs and ?S2.0 = "[]"
            and A = "[]" and B = "Live x # replicate (length xs - 1) Raw"
            and tr = "tr @ [Allocated ?c, ev]"] nt Return r b m
          construct_at_new [of ?xs x] grown_new_vec [of ?xs x]
        by (auto simp: PushBack_def g ctor doubled_pos
            replace_storage_full with_buffer_full store_new
            split: outcome.splits)
    qed
  qed
qed

lemma index_spare: "RawMemory_index (vec_data (vec_of xs (Suc j))) (length xs) = Some (length xs)"
  by (simp add: RawMemory_index_def)

lemma EmplaceBack_spare_vec:
  "case EmplaceBack E a (vec_of xs (Suc j)) tr of
     Return (i, v', tr') \<Rightarrow>
       i = length xs \<and> (\<exists>x. built a xs = Some x \<and> v' = vec_of (after_construct E a xs @ [x]) j)
   | Throw e (v', tr') \<Rightarrow> v' = vec_of xs (Suc j) \<and> tr' = tr \<and> (\<not> nothrow_env E \<or> built a xs = None)
   | Undefined \<Rightarrow> built a xs = None"
proof (cases "construct E a (map Live xs @ replicate (Suc j) Raw) tr")
  case (Return r)
  obtain x m ev where r: "r = (x, m, ev)" by (cases r) auto
  from construct_vec [where E = E and a = a and xs = xs and k = "Suc j" and tr = tr] Return r
  have b: "built a xs = Some x" and m: "m = map Live (after_construct E a xs) @ replicate (Suc j) Raw"
    by simp_all
  have ca: "construct_at m (length xs) x = Some (map Live (after_construct E a xs @ [x]) @ replicate j Raw)"
    unfolding m using construct_at_end [of "after_construct E a xs" j x] by simp
  show ?thesis
    using Return r b ca pushed_vec [of "after_construct E a xs" xs j x]
    by (simp add: EmplaceBack_def index_spare)
next
  case (Throw e u)
  with construct_vec [where E = E and a = a and xs = xs and k = "Suc j" and tr = tr]
  show ?thesis by (simp add: EmplaceBack_def)
next
  case Undefined
  with construct_vec [where E = E and a = a and xs = xs and k = "Suc j" and tr = tr]
  show ?thesis by (simp add: EmplaceBack_def)
qed

lemma EmplaceBack_full_vec:
  assumes "fits E (doubled_cap (length xs))"
  shows "case EmplaceBack E a (vec_of xs 0) tr of
     Return (i, v', tr') \<Rightarrow>
       i = length xs
       \<and> (\<exists>x. built a xs = Some x \<and> v' = vec_of (after_construct E a xs @ [x]) (length xs - 1))
   | Throw e (v', tr') \<Rightarrow>
       (\<exists>ys. length ys = length xs \<and> v' = vec_of ys 0) \<and> (\<not> nothrow_env E \<or> built a xs = None)
   | Undefined \<Rightarrow> built a xs = None"
proof -
  let ?c = "doubled_cap (length xs)"
  let ?xs = "after_construct E a xs"
  have g: "grown (length xs) = ?c" using assms by (rule grown_fits)
  note ctor = RawMemory_ctor_cases [OF assms]
  have same: "\<exists>ys. length ys = length xs \<and> vec_of xs 0 = vec_of ys 0" by blast
  show ?thesis
  proof (cases "new_throws E tr (?c * sizeof_T E)")
    case True
    then have "\<not> nothrow_env E" by (auto simp: nothrow_env_def)
    with True same show ?thesis
      by (simp add: EmplaceBack_def g ctor doubled_pos)
  next
    case nt: False
    let ?tr0 = "tr @ [Allocated ?c]"
    note cv = construct_vec [where E = E and a = a and xs = xs and k = 0 and tr = ?tr0, simplified]
    show ?thesis
    proof (cases "construct E a (map Live xs) ?tr0")
      case Undefined
      with nt cv show ?thesis
        by (simp add: EmplaceBack_def g ctor doubled_pos)
    next
      case (Throw e u)
      with nt cv same show ?thesis
        by (simp add: EmplaceBack_def g ctor doubled_pos)
    next
      case (Return r)
      obtain x m ev where r: "r = (x, m, ev)" by (cases r) auto
      from cv Return r have b: "built a xs = Some x" and m: "m = map Live ?xs" by simp_all
      show ?thesis
        using relocate_n_app [where E = E and S = "[]" and xs = ?xs and ?S2.0 = "[]"
            and A = "[]" and B = "Live x # replicate (length xs - 1) Raw"
            and tr = "tr @ [Allocated ?c, ev]"] nt Return r b m
          construct_at_new [of ?xs x] grown_new_vec [of ?xs x]
        by (auto simp: EmplaceBack_def g ctor doubled_pos RawMemory_index_def doubled_gt
            replace_storage_full with_buffer_full store_new
            split: outcome.splits)
    qed
  qed
qed

lemma doubled_split: "doubled_cap (i + j) = i + Suc (j + (i + j - 1))"
  by (simp add: doubled_cap_def)

lemma Emplace_grow_vec:
  fixes ys zs :: "'a list"
  assumes ac: "after_construct E a xs = ys @ zs" and f: "fits E (doubled_cap (length xs))"
  shows "case Emplace_grow E (int (length ys)) a (vec_of xs 0) tr of
     Return (v1, tr1) \<Rightarrow>
       \<exists>x. built a xs = Some x
          \<and> v1\<lparr>vec_size := vec_size v1 + 1\<rparr> = vec_of (ys @ x # zs) (length xs - 1)
   | Throw e (v', tr') \<Rightarrow>
       (\<exists>us. length us = length xs \<and> v' = vec_of us 0) \<and> (\<not> nothrow_env E \<or> built a xs = None)
   | Undefined \<Rightarrow> built a xs = None"
proof -
  have n: "length xs = length ys + length zs"
    using arg_cong [OF ac, of length] by simp
  let ?c = "doubled_cap (length ys + length zs)"
  let ?v = "vec_of xs 0"
  let ?R = "replicate (length ys + length zs - 1) (Raw :: 'a slot)"
  have g: "grown (length ys + length zs) = ?c" using f unfolding n by (rule grown_fits)
  note ctor = RawMemory_ctor_cases [OF f [unfolded n]]
  have same: "\<exists>us. length us = length ys + length zs \<and> ?v = vec_of us 0"
    by (rule exI [of _ xs]) (simp add: n)
  show ?thesis
  proof (cases "new_throws E tr (?c * sizeof_T E)")
    case True
    then have "\<not> nothrow_env E" by (auto simp: nothrow_env_def)
    with True same show ?thesis
      by (simp add: Emplace_grow_def n g ctor doubled_pos)
  next
    case nt: False
    let ?tr0 = "tr @ [Allocated ?c]"
    note cv = construct_vec [where E = E and a = a and xs = xs and k = 0 and tr = ?tr0, simplified]
    show ?thesis
    proof (cases "construct E a (map Live xs) ?tr0")
      case Undefined
      with nt cv show ?thesis
        by (simp add: Emplace_grow_def n g ctor doubled_pos)
    next
      case (Throw e u)
      with nt cv same show ?thesis
        by (simp add: Emplace_grow_def n g ctor doubled_pos)
    next
      case (Return q)
      obtain x m ev where q: "q = (x, m, ev)" by (cases q) auto
      from cv Return q have b: "built a xs = Some x" and m: "m = map Live ys @ map Live zs"
        by (simp_all add: ac)
      have c: "construct E a (map Live xs) ?tr0 = Return (x, map Live ys @ map Live zs, ev)"
        using Return q m by simp
      let ?nb0 = "replicate (length ys) Raw @ Live x # replicate (length zs) Raw @ ?R"
      have rep: "replicate ?c Raw = replicate (length ys) Raw @ Raw # replicate (length zs) Raw @ ?R"
        using doubled_split [of "length ys" "length zs"]
          replicate_split [of "length ys" "length zs + (length ys + length zs - 1)" "Raw :: 'a slot"]
        by (simp add: replicate_add del: replicate_app_Cons_same)
      have ca: "construct_at (replicate ?c Raw) (length ys) x = Some ?nb0"
        unfolding rep
        using construct_at_app [of "replicate (length ys) Raw" "replicate (length zs) Raw @ ?R" x]
        by (simp del: replicate_app_Cons_same)
      let ?tr1 = "?tr0 @ [ev]"
      have start: "Emplace_grow E (int (length ys)) a ?v tr =
          (case relocate_n E (map Live ys @ map Live zs) 0 (length ys) ?nb0 0 ?tr1 of
             Undefined \<Rightarrow> Undefined
           | Throw e (src, nb, tr2) \<Rightarrow>
               unwind \<lparr>rm_buffer = Block nb, rm_capacity = ?c\<rparr> e (with_buffer ?v src) tr2
           | Return (src1, nb1, tr2) \<Rightarrow>
               (case relocate_n E src1 (length ys) (length zs) nb1 (length ys + 1) tr2 of
                  Undefined \<Rightarrow> Undefined
                | Throw e (src, nb, tr3) \<Rightarrow>
                    unwind \<lparr>rm_buffer = Block nb, rm_capacity = ?c\<rparr> e (with_buffer ?v src) tr3
                | Return (src, nb, tr3) \<Rightarrow>
                    (case replace_storage (with_buffer ?v src)
                            \<lparr>rm_buffer = Block nb, rm_capacity = ?c\<rparr> tr3 of
                       None \<Rightarrow> Undefined
                     | Some s \<Rightarrow> Return s)))"
        using nt c ca
        by (simp add: Emplace_grow_def n g ctor doubled_pos store_new del: replicate_app_Cons_same
            unwind_Block cong: outcome.case_cong)
      have r1: "case relocate_n E (map Live ys @ map Live zs) 0 (length ys) ?nb0 0 ?tr1 of
           Return (src', m', tr') \<Rightarrow>
             m' = map Live ys @ Live x # replicate (length zs) Raw @ ?R
             \<and> (\<exists>us. length us = length ys \<and> src' = map Live us @ map Live zs)
         | Throw e (src', m', tr') \<Rightarrow>
             (\<exists>us. length us = length ys \<and> src' = map Live us @ map Live zs) \<and> \<not> nothrow_env E
         | Undefined \<Rightarrow> False"
        using relocate_n_app [where E = E and S = "[]" and xs = ys and ?S2.0 = "map Live zs"
            and A = "[]" and B = "Live x # replicate (length zs) Raw @ ?R" and tr = ?tr1]
        by (auto split: outcome.splits)
      have wb: "\<And>us ws. length us = length ys \<Longrightarrow> length ws = length zs \<Longrightarrow>
          with_buffer ?v (map Live us @ map Live ws) = vec_of (us @ ws) 0"
        subgoal for us ws using with_buffer_full [of "us @ ws" xs] by (simp add: n)
        done
      show ?thesis
      proof (cases "relocate_n E (map Live ys @ map Live zs) 0 (length ys) ?nb0 0 ?tr1")
        case Undefined
        with r1 show ?thesis by simp
      next
        case (Throw e s)
        obtain src' m' tr' where s: "s = (src', m', tr')" by (cases s) auto
        from r1 Throw s obtain us where us: "length us = length ys" "src' = map Live us @ map Live zs"
          and nte: "\<not> nothrow_env E"
          by auto
        have g1: "\<exists>ws. length ws = length xs \<and> with_buffer ?v src' = vec_of ws 0"
          by (rule exI [of _ "us @ zs"]) (simp add: n us wb)
        show ?thesis
          unfolding start Throw s using g1 nte by simp
      next
        case (Return r)
        obtain src1 nb1 tr2 where r: "r = (src1, nb1, tr2)" by (cases r) auto
        from r1 Return r obtain us where us: "length us = length ys" "src1 = map Live us @ map Live zs"
          and nb1: "nb1 = (map Live ys @ [Live x]) @ replicate (length zs) Raw @ ?R"
          by auto
        have r2: "case relocate_n E (map Live us @ map Live zs) (length ys) (length zs)
                     ((map Live ys @ [Live x]) @ replicate (length zs) Raw @ ?R) (length ys + 1) tr2 of
           Return (src', m', tr') \<Rightarrow>
             m' = map Live ys @ Live x # map Live zs @ ?R
             \<and> (\<exists>ws. length ws = length zs \<and> src' = map Live us @ map Live ws)
         | Throw e (src', m', tr') \<Rightarrow>
             (\<exists>ws. length ws = length zs \<and> src' = map Live us @ map Live ws) \<and> \<not> nothrow_env E
         | Undefined \<Rightarrow> False"
          using relocate_n_app [where E = E and S = "map Live us" and xs = zs and ?S2.0 = "[]"
              and A = "map Live ys @ [Live x]" and B = ?R and tr = tr2] us
          by (auto split: outcome.splits)
        show ?thesis
        proof (cases "relocate_n E (map Live us @ map Live zs) (length ys) (length zs)
                     ((map Live ys @ [Live x]) @ replicate (length zs) Raw @ ?R) (length ys + 1) tr2")
          case Undefined
          with r2 show ?thesis by simp
        next
          case t: (Throw e s)
          obtain src' m' tr' where s: "s = (src', m', tr')" by (cases s) auto
          from r2 t s obtain ws where ws: "length ws = length zs" "src' = map Live us @ map Live ws"
            and nte: "\<not> nothrow_env E"
            by auto
          have g1: "\<exists>ws'. length ws' = length xs \<and> with_buffer ?v src' = vec_of ws' 0"
            by (rule exI [of _ "us @ ws"]) (simp add: n us ws wb)
          have t': "relocate_n E src1 (length ys) (length zs) nb1 (Suc (length ys)) tr2 = Throw e (src', m', tr')"
            using t s us nb1 by simp
          show ?thesis
            unfolding start Return r using g1 nte by (simp add: t')
        next
          case rr: (Return r')
          obtain src nb tr3 where r': "r' = (src, nb, tr3)" by (cases r') auto
          from r2 rr r' obtain ws where ws: "length ws = length zs" "src = map Live us @ map Live ws"
            and nb: "nb = map Live ys @ Live x # map Live zs @ ?R"
            by auto
          have fin: "\<lparr>vec_data = \<lparr>rm_buffer = Block (map Live ys @ Live x # map Live zs @ ?R), rm_capacity = ?c\<rparr>,
                     vec_size = Suc (length ys + length zs)\<rparr> = vec_of (ys @ x # zs) (length xs - 1)"
            using doubled_split [of "length ys" "length zs"] by (simp add: vec_of_def n block_ptr_def)
          have rr': "relocate_n E src1 (length ys) (length zs) nb1 (Suc (length ys)) tr2 = Return (src, nb, tr3)"
            using rr r' us nb1 by simp
          have wv: "with_buffer ?v src = vec_of (us @ ws) 0"
            using us ws wb by simp
          show ?thesis
            unfolding start Return r using b fin
            by (simp add: rr' wv nb replace_storage_full us(1) ws(1))
        qed
      qed
    qed
  qed
qed

lemma copy_construct_loop_overrun:
  "length xs < n \<Longrightarrow> copy_construct_loop E (S @ map Live xs) (length S) n d cur m tr \<noteq> Return r"
proof (induction xs arbitrary: S n cur m tr)
  case Nil
  then obtain n' where "n = Suc n'" by (cases n) auto
  then show ?case by (simp add: object_at_def)
next
  case (Cons x xs)
  then obtain n' where n: "n = Suc n'" and lt: "length xs < n'" by (cases n) auto
  have rd: "object_at (S @ map Live (x # xs)) (length S) = Some x"
    using object_at_app [of S x "map Live xs"] by simp
  have ih: "\<And>cur m tr. copy_construct_loop E (S @ map Live (x # xs)) (Suc (length S)) n' d cur m tr \<noteq> Return r"
    using Cons.IH [OF lt, where S = "S @ [Live x]"] by simp
  show ?case
    unfolding n using rd ih by (simp split: option.splits)
qed

lemma move_construct_loop_overrun:
  "length xs < n \<Longrightarrow> move_construct_loop E (length S) n d cur (S @ map Live xs) m tr \<noteq> Return r"
proof (induction xs arbitrary: S n cur m tr)
  case Nil
  then obtain n' where "n = Suc n'" by (cases n) auto
  then show ?case by (simp add: object_at_def)
next
  case (Cons x xs)
  then obtain n' where n: "n = Suc n'" and lt: "length xs < n'" by (cases n) auto
  have rd: "object_at (S @ map Live (x # xs)) (length S) = Some x"
    using object_at_app [of S x "map Live xs"] by simp
  have ih: "\<And>cur m tr. move_construct_loop E (Suc (length S)) n' d cur
        (S @ Live (moved_from E x) # map Live xs) m tr \<noteq> Return r"
    using Cons.IH [OF lt, where S = "S @ [Live (moved_from E x)]"] by simp
  show ?case
    unfolding n using rd ih by (simp split: option.splits)
qed

lemma relocate_n_overrun:
  "length xs < n \<Longrightarrow> relocate_n E (map Live xs) 0 n m d tr \<noteq> Return r"
  using move_construct_loop_overrun [where S = "[]" and xs = xs and n = n and E = E and d = d
      and cur = d and m = m and tr = tr]
    copy_construct_loop_overrun [where S = "[]" and xs = xs and n = n and E = E and d = d
      and cur = d and m = m and tr = tr]
  by (auto simp: relocate_n_def uninitialized_move_n_def uninitialized_copy_n_def
      split: outcome.splits)

lemma Emplace_grow_return_vec:
  assumes "Emplace_grow E p a (vec_of xs 0) tr = Return (v1, tr1)"
    and f: "fits E (doubled_cap (length xs))"
  shows "0 \<le> p \<and> nat p \<le> length xs
     \<and> (\<exists>x. built a xs = Some x
          \<and> v1\<lparr>vec_size := vec_size v1 + 1\<rparr>
              = vec_of (take (nat p) (after_construct E a xs) @ x # drop (nat p) (after_construct E a xs))
                  (length xs - 1))"
proof (cases "0 \<le> p \<and> nat p \<le> length xs")
  case True
  let ?xs = "after_construct E a xs"
  from True have xs: "?xs = take (nat p) ?xs @ drop (nat p) ?xs" and p: "p = int (length (take (nat p) ?xs))"
    by simp_all
  show ?thesis
    using Emplace_grow_vec [OF xs f, where tr = tr] assms(1) True
    unfolding p [symmetric]
    by (auto split: outcome.splits)
next
  case False
  let ?c = "doubled_cap (length xs)"
  have g: "grown (length xs) = ?c" using f by (rule grown_fits)
  note ctor = RawMemory_ctor_cases [OF f]
  have False
  proof (cases "p < 0")
    case True
    with assms(1) show False
      by (auto simp: Emplace_grow_def g ctor doubled_pos split: if_splits)
  next
    case pos: False
    with False have over: "length xs < nat p" by simp
    note cv = construct_vec [where E = E and a = a and xs = xs and k = 0, simplified]
    have "relocate_n E (map Live (after_construct E a xs)) 0 (nat p) m d t \<noteq> Return r" for m d t r
      using relocate_n_overrun [of "after_construct E a xs" "nat p"] over by simp
    moreover have "construct E a (map Live xs) t = Return (x, m, ev) \<Longrightarrow> m = map Live (after_construct E a xs)"
      for t x m ev
      using cv [of t] by simp
    ultimately show False
      using assms(1) pos
      by (auto simp: Emplace_grow_def g ctor doubled_pos store_new
          split: if_splits option.splits outcome.splits)
  qed
  then show ?thesis ..
qed

lemma Emplace_try_end_vec:
  "case Emplace_try E (length xs) p a (vec_of xs (Suc j)) tr of
     Return (m, tr') \<Rightarrow>
       \<exists>x. built a xs = Some x \<and> m = map Live (after_construct E a xs @ [x]) @ replicate j Raw
   | Throw e (m, tr') \<Rightarrow>
       m = map Live xs @ replicate (Suc j) Raw \<and> tr' = tr \<and> (\<not> nothrow_env E \<or> built a xs = None)
   | Undefined \<Rightarrow> built a xs = None"
proof (cases "construct E a (map Live xs @ replicate (Suc j) Raw) tr")
  case (Return r)
  obtain x m ev where r: "r = (x, m, ev)" by (cases r) auto
  from construct_vec [where E = E and a = a and xs = xs and k = "Suc j" and tr = tr] Return r
  have b: "built a xs = Some x" and m: "m = map Live (after_construct E a xs) @ replicate (Suc j) Raw"
    by simp_all
  have ca: "construct_at m (length xs) x = Some (map Live (after_construct E a xs @ [x]) @ replicate j Raw)"
    unfolding m using construct_at_end [of "after_construct E a xs" j x] by simp
  show ?thesis
    using Return r b ca by (simp add: Emplace_try_def)
next
  case (Throw e u)
  with construct_vec [where E = E and a = a and xs = xs and k = "Suc j" and tr = tr]
  show ?thesis by (simp add: Emplace_try_def)
next
  case Undefined
  with construct_vec [where E = E and a = a and xs = xs and k = "Suc j" and tr = tr]
  show ?thesis by (simp add: Emplace_try_def)
qed

lemma Emplace_try_end_copy:
  assumes "\<not> copy_throws E tr x"
  shows "Emplace_try E (length xs) p (Copy_arg x) (vec_of xs (Suc j)) tr
     = Return (map Live (xs @ [x]) @ replicate j Raw, tr @ [Copied x])"
  using assms construct_at_end [of xs j x]
  by (simp add: Emplace_try_def construct_def)

lemma Emplace_try_mid_vec:
  assumes "pos \<noteq> length xs" and ac: "after_construct E a xs = ys @ ws @ [y]"
  shows "case Emplace_try E pos (int (length ys)) a (vec_of xs (Suc j)) tr of
     Return (m, tr') \<Rightarrow> \<exists>x. built a xs = Some x \<and> m = map Live (ys @ x # ws @ [y]) @ replicate j Raw
   | Throw e (m, tr') \<Rightarrow> \<not> nothrow_env E \<or> built a xs = None
   | Undefined \<Rightarrow> built a xs = None"
proof (cases "construct E a (map Live xs @ replicate (Suc j) Raw) tr")
  case Undefined
  with construct_vec [where E = E and a = a and xs = xs and k = "Suc j" and tr = tr] assms(1)
  show ?thesis by (simp add: Emplace_try_def)
next
  case (Throw e u)
  with construct_vec [where E = E and a = a and xs = xs and k = "Suc j" and tr = tr] assms(1)
  show ?thesis by (simp add: Emplace_try_def)
next
  case (Return q)
  obtain x m0 ev where q: "q = (x, m0, ev)" by (cases q) auto
  let ?v = "vec_of xs (Suc j)"
  let ?p = "length ys + length ws"
  let ?A = "map Live ys"
  let ?B = "Live y # replicate j Raw"
  have n: "length xs = Suc ?p"
    using arg_cong [OF ac, of length] by simp
  from construct_vec [where E = E and a = a and xs = xs and k = "Suc j" and tr = tr] Return q
  have b: "built a xs = Some x" and buf: "m0 = (?A @ map Live ws) @ Live y # Raw # replicate j Raw"
    by (simp_all add: ac)
  have c: "construct E a (map Live xs @ Raw # replicate j Raw) tr = Return (x, m0, ev)"
    using Return q by simp
  have idx: "RawMemory_index (vec_data ?v) ?p = Some ?p"
    by (simp add: RawMemory_index_def n)
  have rd: "object_at m0 ?p = Some y"
    unfolding buf using object_at_app [of "?A @ map Live ws" y "Raw # replicate j Raw"] by simp
  have ca: "construct_at m0 (Suc ?p) y = Some ((?A @ map Live ws) @ Live y # ?B)"
    unfolding buf
    using construct_at_app [of "?A @ map Live ws @ [Live y]" "replicate j Raw" y] by simp
  have upd: "((?A @ map Live ws) @ Live y # ?B)[?p := Live (moved_from E y)]
      = ?A @ map Live ws @ Live (moved_from E y) # ?B"
    using list_update_length [of "?A @ map Live ws" "Live y" ?B "Live (moved_from E y)"] by simp
  show ?thesis
  proof (cases "move_throws E (tr @ [ev]) y")
    case True
    then have "\<not> nothrow_env E" by (auto simp: nothrow_env_def)
    with True assms(1) c idx rd show ?thesis
      by (simp add: Emplace_try_def n)
  next
    case nt: False
    let ?lp = "move_backward_loop E (length ws) ?p (Suc ?p)
        (?A @ map Live ws @ Live (moved_from E y) # ?B) (tr @ [ev, Moved y])"
    have start: "Emplace_try E pos (int (length ys)) a ?v tr =
        (case ?lp of
           Undefined \<Rightarrow> Undefined
         | Throw e (m2, tr2) \<Rightarrow> Throw e (m2, tr2 @ [Destroyed x])
         | Return (m2, tr2) \<Rightarrow>
             (case object_at m2 (length ys) of
                None \<Rightarrow> Undefined
              | Some z \<Rightarrow>
                  if move_assign_throws E tr2 z x then Throw element_exn (m2, tr2 @ [Destroyed x])
                  else Return (m2[nat (int (length ys)) := Live x],
                               tr2 @ [MoveAssigned x, Destroyed (moved_from E x)])))"
      using assms(1) c idx rd ca nt upd
      by (simp add: Emplace_try_def std_move_backward_def n del: list_update_append
          list_update_length append_assoc cong: outcome.case_cong)
    note lp = move_backward_loop_app [where E = E and A = ?A and xs = ws
        and y = "moved_from E y" and B = ?B and tr = "tr @ [ev, Moved y]"]
    show ?thesis
    proof (cases ?lp)
      case Undefined
      with lp show ?thesis by simp
    next
      case (Throw e s)
      obtain m2 tr2 where s: "s = (m2, tr2)" by (cases s) auto
      from lp Throw s have "\<not> nothrow_env E" by simp
      then show ?thesis unfolding start Throw s by simp
    next
      case (Return r)
      let ?z = "if ws = [] then moved_from E y else moved_from E (hd ws)"
      from lp Return have r: "r = (?A @ Live ?z # map Live ws @ ?B, (tr @ [ev, Moved y]) @ map MoveAssigned (rev ws))"
        by simp
      have rd2: "object_at (?A @ Live ?z # map Live ws @ ?B) (length ys) = Some ?z"
        using object_at_app [of ?A ?z "map Live ws @ ?B"] by simp
      have upd2: "(?A @ Live ?z # map Live ws @ ?B)[length ys := Live x]
          = map Live (ys @ x # ws @ [y]) @ replicate j Raw"
        using list_update_length [of ?A "Live ?z" "map Live ws @ ?B" "Live x"] by simp
      have "\<not> nothrow_env E" if "move_assign_throws E t z x" for t z
        using that by (auto simp: nothrow_env_def)
      then show ?thesis
        unfolding start Return r using rd2 upd2 b
        by (simp del: list_update_append list_update_length)
    qed
  qed
qed

lemma Emplace_try_invalid:
  assumes "pos \<noteq> length xs" and "\<not> (0 \<le> p \<and> nat p < length xs)"
  shows "Emplace_try E pos p a (vec_of xs (Suc j)) tr \<noteq> Return r"
proof (cases "p < 0 \<or> xs = []")
  case True
  with assms show ?thesis
    by (auto simp: Emplace_try_def split: option.splits outcome.splits)
next
  case False
  with assms have "\<not> nat p \<le> length xs - 1" by (cases xs) auto
  with assms False show ?thesis
    by (auto simp: Emplace_try_def std_move_backward_def split: option.splits outcome.splits)
qed

lemma split_last: "nat p < length xs \<Longrightarrow>
  \<exists>ws y. drop (nat p) xs = ws @ [y]"
  by (metis append_butlast_last_id drop_eq_Nil2 linorder_not_less)

lemma Emplace_spare_return:
  assumes "Emplace E pos a (vec_of xs (Suc j)) tr = Return (it, v', tr')"
  shows "0 \<le> to_int pos \<and> it = nat (to_int pos)
     \<and> (\<exists>x. built a xs = Some x
          \<and> (if pos = length xs then v' = vec_of (after_construct E a xs @ [x]) j
              else it < length xs
                \<and> v' = vec_of (take it (after_construct E a xs) @ x # drop it (after_construct E a xs)) j))"
proof -
  let ?p = "to_int pos"
  let ?v = "vec_of xs (Suc j)"
  let ?xs = "after_construct E a xs"
  have "\<exists>m. Emplace_try E pos ?p a ?v tr = Return (m, tr') \<and> 0 \<le> ?p \<and> it = nat ?p
      \<and> v' = (with_buffer ?v m)\<lparr>vec_size := length xs + 1\<rparr>"
  proof (cases "Emplace_try E pos ?p a ?v tr")
    case (Return r)
    obtain m tr1 where "r = (m, tr1)" by (cases r) auto
    with assms Return show ?thesis
      by (simp add: Emplace_def Let_def split: if_splits)
  next
    case (Throw e1 s1)
    with assms show ?thesis
      by (simp add: Emplace_def Let_def split: prod.splits option.splits)
  next
    case Undefined
    with assms show ?thesis by (simp add: Emplace_def Let_def)
  qed
  then obtain m where
    tr: "Emplace_try E pos ?p a ?v tr = Return (m, tr')" and p0: "0 \<le> ?p" and it: "it = nat ?p"
    and v': "v' = (with_buffer ?v m)\<lparr>vec_size := length xs + 1\<rparr>"
    by blast
  have wb: "\<And>zs. length zs = Suc (length xs) \<Longrightarrow>
      (with_buffer ?v (map Live zs @ replicate j Raw))\<lparr>vec_size := length xs + 1\<rparr> = vec_of zs j"
    by (simp add: with_buffer_def vec_of_def store_block_ptr)
  show ?thesis
  proof (cases "pos = length xs")
    case True
    with tr Emplace_try_end_vec [where E = E and xs = xs and p = ?p and a = a and j = j and tr = tr]
    obtain x where "built a xs = Some x" and m: "m = map Live (?xs @ [x]) @ replicate j Raw"
      by auto
    with True p0 it v' m wb [of "?xs @ [x]"] show ?thesis by simp
  next
    case False
    have valid: "nat ?p < length xs"
      using Emplace_try_invalid [OF False, of ?p E a j tr] tr p0 by auto
    then have valid': "nat ?p < length ?xs" by simp
    obtain ws y where d: "drop (nat ?p) ?xs = ws @ [y]"
      using split_last [OF valid'] by blast
    define ys where "ys = take (nat ?p) ?xs"
    have xs: "?xs = ys @ ws @ [y]"
      using append_take_drop_id [of "nat ?p" ?xs] d by (simp add: ys_def)
    have ly: "length ys = nat ?p" using valid by (simp add: ys_def)
    have len: "length xs = Suc (length ys + length ws)"
      using arg_cong [OF xs, of length] by simp
    have pe: "?p = int (length ys)" using p0 ly by simp
    have "case Emplace_try E pos ?p a ?v tr of
        Return (m, tr') \<Rightarrow> \<exists>x. built a xs = Some x \<and> m = map Live (ys @ x # ws @ [y]) @ replicate j Raw
      | Throw e (m, tr') \<Rightarrow> \<not> nothrow_env E \<or> built a xs = None
      | Undefined \<Rightarrow> built a xs = None"
      using Emplace_try_mid_vec [OF False xs, where j = j and tr = tr]
      unfolding pe [symmetric] .
    with tr obtain x where b: "built a xs = Some x" and m: "m = map Live (ys @ x # ws @ [y]) @ replicate j Raw"
      by auto
    have "v' = vec_of (ys @ x # ws @ [y]) j"
      using v' m wb [of "ys @ x # ws @ [y]"] len by simp
    then have "v' = vec_of (take it ?xs @ x # drop it ?xs) j"
      using d it by (simp add: ys_def)
    with False p0 it b valid show ?thesis by auto
  qed
qed

lemma Emplace_full_return:
  assumes "Emplace E pos a (vec_of xs 0) tr = Return (it, v', tr')"
    and "fits E (doubled_cap (length xs))"
  shows "0 \<le> to_int pos \<and> it = nat (to_int pos) \<and> it \<le> length xs
     \<and> (\<exists>x. built a xs = Some x
          \<and> v' = vec_of (take it (after_construct E a xs) @ x # drop it (after_construct E a xs))
                   (length xs - 1))"
proof (cases "Emplace_grow E (to_int pos) a (vec_of xs 0) tr")
  case (Return r)
  obtain v1 tr1 where r: "r = (v1, tr1)" by (cases r) auto
  from assms(1) Return r have p0: "0 \<le> to_int pos" and it: "it = nat (to_int pos)"
    and v': "v' = v1\<lparr>vec_size := vec_size v1 + 1\<rparr>"
    by (auto simp: Emplace_def Let_def split: if_splits)
  from Emplace_grow_return_vec [OF Return [unfolded r] assms(2)] it v' p0 show ?thesis by auto
next
  case (Throw e s)
  with assms(1) show ?thesis by (simp add: Emplace_def Let_def)
next
  case Undefined
  with assms(1) show ?thesis by (simp add: Emplace_def Let_def)
qed

lemma Erase_mid_vec:
  assumes "to_int pos = int (length ys)"
  shows "case Erase E pos (vec_of (ys @ z # zs) k) tr of
     Return (it, v', tr') \<Rightarrow>
       it = length ys \<and> v' = vec_of (ys @ zs) (Suc k)
       \<and> (\<exists>w. tr' = tr @ map MoveAssigned zs @ [Destroyed w])
   | Throw e (v', tr') \<Rightarrow>
       (\<exists>us. length us = length (ys @ z # zs) \<and> v' = vec_of us k) \<and> \<not> nothrow_env E
   | Undefined \<Rightarrow> False"
proof -
  let ?v = "vec_of (ys @ z # zs) k"
  let ?A = "map Live ys"
  let ?B = "replicate k (Raw :: 'a slot)"
  let ?lp = "move_assign_loop E (Suc (length ys)) (length zs) (length ys) (?A @ Live z # map Live zs @ ?B) tr"
  have start: "Erase E pos ?v tr =
      (case ?lp of
         Undefined \<Rightarrow> Undefined
       | Throw e (m, tr1) \<Rightarrow> Throw e (with_buffer ?v m, tr1)
       | Return (m, tr1) \<Rightarrow>
           (case destroy_at (length ys + length zs) m tr1 of
              None \<Rightarrow> Undefined
            | Some (m2, tr2) \<Rightarrow>
                Return (nat (int (length ys)),
                        (with_buffer ?v m2)\<lparr>vec_size := vec_size ?v - 1\<rparr>, tr2)))"
    using assms
    by (simp add: Erase_def Let_def std_move_def cong: outcome.case_cong)
  note lp = move_assign_loop_app [where E = E and A = ?A and y = z and xs = zs and B = ?B and tr = tr]
  show ?thesis
  proof (cases ?lp)
    case Undefined
    with lp show ?thesis by simp
  next
    case (Throw e s)
    obtain m tr1 where s: "s = (m, tr1)" by (cases s) auto
    from lp Throw s obtain us where us: "length us = Suc (length zs)" "m = ?A @ map Live us @ ?B"
      and nte: "\<not> nothrow_env E"
      by auto
    have "with_buffer ?v m = vec_of (ys @ us) k"
      using us by (simp add: with_buffer_def vec_of_def store_block_ptr)
    moreover have "length (ys @ us) = length (ys @ z # zs)" using us by simp
    ultimately have "\<exists>ws. length ws = length (ys @ z # zs) \<and> with_buffer ?v m = vec_of ws k"
      by blast
    then show ?thesis unfolding start Throw s using nte by simp
  next
    case (Return r)
    let ?w = "if zs = [] then z else moved_from E (last zs)"
    from lp Return have r: "r = (?A @ map Live zs @ Live ?w # ?B, tr @ map MoveAssigned zs)"
      by simp
    have d: "destroy_at (length ys + length zs) (?A @ map Live zs @ Live ?w # ?B) (tr @ map MoveAssigned zs)
        = Some (?A @ map Live zs @ Raw # ?B, (tr @ map MoveAssigned zs) @ [Destroyed ?w])"
      using destroy_at_app [of "?A @ map Live zs" ?w ?B "tr @ map MoveAssigned zs"] by simp
    have fin: "(with_buffer ?v (?A @ map Live zs @ Raw # ?B))\<lparr>vec_size := length ys + length zs\<rparr>
        = vec_of (ys @ zs) (Suc k)"
      by (simp add: with_buffer_def vec_of_def store_block_ptr)
    show ?thesis unfolding start Return r using d fin by simp
  qed
qed

lemma Erase_valid:
  assumes "Erase E pos (vec_of xs k) tr \<noteq> Undefined"
  shows "0 \<le> to_int pos \<and> nat (to_int pos) < length xs"
proof -
  let ?p = "to_int pos"
  from assms have p0: "0 \<le> ?p"
    by (auto simp: Erase_def Let_def split: if_splits)
  have "nat ?p < length xs"
  proof (rule ccontr)
    assume "\<not> nat ?p < length xs"
    with assms p0 show False
      by (auto simp: Erase_def Let_def std_move_def split: if_splits)
  qed
  with p0 show ?thesis by simp
qed

lemma Erase_return:
  assumes "Erase E pos (vec_of xs k) tr = Return (it, v', tr')"
  shows "0 \<le> to_int pos \<and> it = nat (to_int pos) \<and> it < length xs
     \<and> v' = vec_of (take it xs @ drop (Suc it) xs) (Suc k)"
proof -
  let ?p = "to_int pos"
  from assms Erase_valid [of E pos xs k tr] have p0: "0 \<le> ?p" and valid: "nat ?p < length xs"
    by simp_all
  define ys where "ys = take (nat ?p) xs"
  define zs where "zs = drop (Suc (nat ?p)) xs"
  have xs: "xs = ys @ xs ! nat ?p # zs"
    using id_take_nth_drop [OF valid] by (simp add: ys_def zs_def)
  have pe: "?p = int (length ys)" using p0 valid by (simp add: ys_def)
  have "case Erase E pos (vec_of xs k) tr of
     Return (it, v', tr') \<Rightarrow>
       it = length ys \<and> v' = vec_of (ys @ zs) (Suc k)
       \<and> (\<exists>w. tr' = tr @ map MoveAssigned zs @ [Destroyed w])
   | Throw e (v', tr') \<Rightarrow>
       (\<exists>us. length us = length (ys @ xs ! nat ?p # zs) \<and> v' = vec_of us k) \<and> \<not> nothrow_env E
   | Undefined \<Rightarrow> False"
    using Erase_mid_vec [OF pe, where E = E and z = "xs ! nat ?p" and zs = zs and k = k and tr = tr]
    unfolding xs [symmetric] .
  with assms have "it = length ys" "v' = vec_of (ys @ zs) (Suc k)" by auto
  with p0 valid show ?thesis by (simp add: ys_def zs_def)
qed

text \<open>
  With a valid position and an element type that does not throw, \<^verbatim>\<open>Erase\<close> returns.
\<close>

lemma Erase_total:
  assumes "nothrow_env E" and "pos < length xs" and "length xs \<le> 2 ^ 31"
  shows "\<exists>tr'. Erase E pos (vec_of xs k) tr
           = Return (pos, vec_of (take pos xs @ drop (Suc pos) xs) (Suc k), tr')"
proof -
  have p: "to_int pos = int pos"
    unfolding to_int_def using assms(2,3) by (intro signed_take_bit_int_eq_self) simp_all
  define ys where "ys = take pos xs"
  define zs where "zs = drop (Suc pos) xs"
  have xs: "xs = ys @ xs ! pos # zs"
    using id_take_nth_drop [OF assms(2)] by (simp add: ys_def zs_def)
  have pe: "to_int pos = int (length ys)" using p assms(2) by (simp add: ys_def)
  have "case Erase E pos (vec_of xs k) tr of
     Return (it, v', tr') \<Rightarrow>
       it = length ys \<and> v' = vec_of (ys @ zs) (Suc k)
       \<and> (\<exists>w. tr' = tr @ map MoveAssigned zs @ [Destroyed w])
   | Throw e (v', tr') \<Rightarrow>
       (\<exists>us. length us = length (ys @ xs ! pos # zs) \<and> v' = vec_of us k) \<and> \<not> nothrow_env E
   | Undefined \<Rightarrow> False"
    using Erase_mid_vec [OF pe, where E = E and z = "xs ! pos" and zs = zs and k = k and tr = tr]
    unfolding xs [symmetric] .
  with assms(1,2) show ?thesis
    by (auto simp: ys_def zs_def split: outcome.splits)
qed

lemma PopBack_vec:
  "PopBack (vec_of (xs @ [x]) k) tr = Some (vec_of xs (Suc k), tr @ [Destroyed x])"
proof -
  have "(with_buffer (vec_of (xs @ [x]) k) (map Live xs @ Raw # replicate k Raw))
      \<lparr>vec_size := length xs\<rparr> = vec_of xs (Suc k)"
    by (simp add: with_buffer_def vec_of_def store_block_ptr)
  then show ?thesis
    using destroy_at_app [of "map Live xs" x "replicate k Raw" tr]
    by (simp add: PopBack_def)
qed

lemma PopBack_empty: "PopBack (vec_of [] k) tr = None"
  by (simp add: PopBack_def)

lemma Swap_vec: "Swap (vec_of xs k) (vec_of ys j) tr = (vec_of ys j, vec_of xs k, tr)"
  by (simp add: Swap_def RawMemory_Swap_def vec_of_def)

lemma Vector_move_ctor_vec: "Vector_move_ctor (vec_of xs k) tr = (vec_of xs k, vec_of [] 0, tr)"
  by (simp add: Vector_move_ctor_def RawMemory_move_ctor_def vec_of_def block_ptr_def)

lemma Vector_default_vec: "Vector_default = vec_of [] 0"
  by (simp add: Vector_default_def RawMemory_default_def vec_of_def block_ptr_def)

lemma vec_of_0:
  "\<lparr>vec_data = \<lparr>rm_buffer = block_ptr (map Live xs), rm_capacity = length xs\<rparr>, vec_size = length xs\<rparr>
     = vec_of xs 0"
  by (simp add: vec_of_def)

lemma Vector_copy_ctor_vec:
  assumes "fits E (length rs)"
  shows "case Vector_copy_ctor E (vec_of rs j) tr of
     Return (v', tr') \<Rightarrow> v' = vec_of rs 0
   | Throw e tr' \<Rightarrow> \<not> nothrow_env E
   | Undefined \<Rightarrow> False"
proof (cases "rs = []")
  case True
  then show ?thesis
    using assms
    by (simp add: Vector_copy_ctor_def RawMemory_ctor_cases uninitialized_copy_n_def vec_of_def
        store_block_ptr)
next
  case False
  have nt: "\<not> nothrow_env E" if "new_throws E tr (length rs * sizeof_T E)"
    using that by (auto simp: nothrow_env_def)
  from False show ?thesis
    using copy_construct_loop_app [where E = E and S = "[]" and xs = rs and ?S2.0 = "replicate j Raw"
        and A = "[]" and ds = "[]" and B = "[]" and tr = "tr @ [Allocated (length rs)]"] nt
    by (auto simp: Vector_copy_ctor_def RawMemory_ctor_cases [OF assms] uninitialized_copy_n_def vec_of_0
        store_block_ptr split: outcome.splits)
qed

lemma Vector_sized_vec:
  assumes "fits E n"
  shows "case Vector_sized E n tr of
     Return (v', tr') \<Rightarrow>
       v' = vec_of (replicate n (default_value E)) 0
       \<and> tr' = (if n = 0 then tr
                 else tr @ Allocated n # replicate n (DefaultConstructed (default_value E)))
   | Throw e tr' \<Rightarrow> \<not> nothrow_env E
   | Undefined \<Rightarrow> False"
proof (cases "n = 0")
  case True
  then show ?thesis
    using assms
    by (simp add: Vector_sized_def RawMemory_ctor_cases uninitialized_value_construct_n_def vec_of_def
        store_block_ptr)
next
  case False
  have nt: "\<not> nothrow_env E" if "new_throws E tr (n * sizeof_T E)"
    using that by (auto simp: nothrow_env_def)
  from False show ?thesis
    using value_construct_vec [where E = E and xs = "[]" and n = n and j = 0 and tr = "tr @ [Allocated n]"] nt
    by (auto simp: Vector_sized_def RawMemory_ctor_cases [OF assms]
        vec_of_0 [of "replicate n (default_value E)", simplified] map_replicate store_block_ptr
        split: outcome.splits)
qed

lemma Vector_dtor_vec:
  "Vector_dtor (vec_of xs k) tr
     = Some (released (replicate (length xs) Raw @ replicate k Raw) (tr @ map Destroyed xs))"
  using destroy_n_app [where A = "[]" and xs = xs and B = "replicate k Raw" and tr = tr]
  by (simp add: Vector_dtor_def vec_of_def buffer_def store_block_ptr)

lemma copy_assign_realloc_vec:
  assumes "length xs + k < length rs" and "fits E (length rs)"
  shows "case copy_assign E (vec_of xs k) (Other (vec_of rs j)) tr of
     Return (v', tr') \<Rightarrow> v' = vec_of rs 0
   | Throw e (v', tr') \<Rightarrow> v' = vec_of xs k \<and> \<not> nothrow_env E
   | Undefined \<Rightarrow> False"
  using assms(1) Vector_copy_ctor_vec [OF assms(2), where j = j and tr = tr]
  by (auto simp: copy_assign_def Swap_vec Vector_dtor_vec split: outcome.splits)

lemma copy_assign_extend_vec:
  assumes "length rs1 = length xs"
  shows "case copy_assign E (vec_of xs (length rs2 + i)) (Other (vec_of (rs1 @ rs2) j)) tr of
     Return (v', tr') \<Rightarrow> v' = vec_of (rs1 @ rs2) i
   | Throw e (v', tr') \<Rightarrow> \<exists>us. length us = length xs \<and> v' = vec_of us (length rs2 + i)
   | Undefined \<Rightarrow> False"
proof -
  let ?v = "vec_of xs (length rs2 + i)"
  let ?src = "map Live rs1 @ map Live rs2 @ replicate j Raw"
  let ?R = "replicate (length rs2) (Raw :: 'a slot) @ replicate i Raw"
  let ?c = "copy_assign_loop E ?src 0 (length xs) 0 (map Live xs @ ?R) tr"
  have start: "copy_assign E ?v (Other (vec_of (rs1 @ rs2) j)) tr =
      (case ?c of
         Undefined \<Rightarrow> Undefined
       | Throw e (m, tr1) \<Rightarrow> Throw e (with_buffer ?v m, tr1)
       | Return (m, tr1) \<Rightarrow>
           (case uninitialized_copy_n E (buffer (vec_of (rs1 @ rs2) j)) (vec_size ?v)
                   (vec_size (vec_of (rs1 @ rs2) j) - vec_size ?v) m (vec_size ?v) tr1 of
              Undefined \<Rightarrow> Undefined
            | Throw e (m2, tr2) \<Rightarrow> Throw e (with_buffer ?v m2, tr2)
            | Return (m2, tr2) \<Rightarrow>
                Return ((with_buffer ?v m2)\<lparr>vec_size := vec_size (vec_of (rs1 @ rs2) j)\<rparr>, tr2)))"
    using assms
    by (simp add: copy_assign_def std_copy_def replicate_add cong: outcome.case_cong)
  have c: "case ?c of
       Return r \<Rightarrow> r = (map Live rs1 @ ?R, tr @ map CopyAssigned rs1)
     | Throw e (m', tr') \<Rightarrow> \<exists>zs. length zs = length rs1 \<and> m' = map Live zs @ ?R
     | Undefined \<Rightarrow> False"
    using copy_assign_loop_app [where E = E and S = "[]" and xs = rs1 and ?S2.0 = "map Live rs2 @ replicate j Raw"
        and A = "[]" and ys = xs and B = ?R and tr = tr] assms
    by (auto split: outcome.splits)
  have wb: "\<And>us. length us = length xs \<Longrightarrow> with_buffer ?v (map Live us @ ?R) = vec_of us (length rs2 + i)"
    by (simp add: with_buffer_def vec_of_def replicate_add store_block_ptr)
  show ?thesis
  proof (cases ?c)
    case Undefined
    with c show ?thesis by simp
  next
    case (Throw e s)
    obtain m tr1 where s: "s = (m, tr1)" by (cases s) auto
    from c Throw s obtain zs where "length zs = length rs1" "m = map Live zs @ ?R" by auto
    then have "\<exists>us. length us = length xs \<and> with_buffer ?v m = vec_of us (length rs2 + i)"
      using wb [of zs] assms by auto
    then show ?thesis unfolding start Throw s by simp
  next
    case (Return r)
    from c Return have r: "r = (map Live rs1 @ ?R, tr @ map CopyAssigned rs1)" by simp
    let ?tr1 = "tr @ map CopyAssigned rs1"
    let ?u = "copy_construct_loop E ?src (length xs) (length rs2) (length xs) (length xs) (map Live rs1 @ ?R) ?tr1"
    have u: "case ?u of
         Return r \<Rightarrow> r = (map Live rs1 @ map Live rs2 @ replicate i Raw, ?tr1 @ map Copied rs2)
       | Throw e (m', tr') \<Rightarrow> m' = map Live rs1 @ ?R
       | Undefined \<Rightarrow> False"
      using copy_construct_loop_app [where E = E and S = "map Live rs1" and xs = rs2 and ?S2.0 = "replicate j Raw"
          and A = "map Live rs1" and ds = "[]" and B = "replicate i Raw" and tr = ?tr1] assms
      by (auto split: outcome.splits)
    have fin: "(with_buffer ?v (map Live rs1 @ map Live rs2 @ replicate i Raw))
          \<lparr>vec_size := length rs1 + length rs2\<rparr> = vec_of (rs1 @ rs2) i"
      using assms by (simp add: with_buffer_def vec_of_def store_block_ptr)
    have un: "uninitialized_copy_n E (buffer (vec_of (rs1 @ rs2) j)) (vec_size ?v)
                   (vec_size (vec_of (rs1 @ rs2) j) - vec_size ?v) (map Live rs1 @ ?R) (vec_size ?v) ?tr1 = ?u"
      using assms by (simp add: uninitialized_copy_n_def)
    show ?thesis
    proof (cases ?u)
      case Undefined
      with u show ?thesis by simp
    next
      case t: (Throw e s)
      obtain m tr2 where s: "s = (m, tr2)" by (cases s) auto
      from u t s have "m = map Live rs1 @ ?R" by simp
      then have "\<exists>us. length us = length xs \<and> with_buffer ?v m = vec_of us (length rs2 + i)"
        using wb [of rs1] assms by auto
      then show ?thesis unfolding start Return r using un t s by simp
    next
      case rr: (Return r2)
      from u rr have "r2 = (map Live rs1 @ map Live rs2 @ replicate i Raw, ?tr1 @ map Copied rs2)" by simp
      then show ?thesis unfolding start Return r using un rr fin by simp
    qed
  qed
qed


section \<open>The block and the capacity of every vector\<close>

lemma value_construct_loop_length:
  "value_construct_loop E d cur n m tr = Return (m', tr') \<Longrightarrow>
   length m' = length m \<and> (n \<noteq> 0 \<longrightarrow> cur + n \<le> length m)"
  "value_construct_loop E d cur n m tr = Throw e (m', tr') \<Longrightarrow> length m' = length m"
proof (induction n arbitrary: cur m tr)
  case 0
  { case 1 then show ?case by simp }
  { case 2 then show ?case by simp }
next
  case (Suc n)
  { case 1
    then obtain m1 where
      c: "construct_at m cur (default_value E) = Some m1"
      and r: "value_construct_loop E d (Suc cur) n m1 (tr @ [DefaultConstructed (default_value E)])
                = Return (m', tr')"
      by (auto split: option.splits if_splits)
    from construct_at_Some [OF c] Suc.IH(1) [OF r] show ?case by (cases n) auto }
  { case 2
    show ?case
    proof (cases "default_throws E tr")
      case True
      with 2 show ?thesis by (auto split: option.splits dest: destroy_n_length)
    next
      case False
      with 2 obtain m1 where
        c: "construct_at m cur (default_value E) = Some m1"
        and r: "value_construct_loop E d (Suc cur) n m1 (tr @ [DefaultConstructed (default_value E)])
                  = Throw e (m', tr')"
        by (auto split: option.splits)
      from construct_at_Some [OF c] Suc.IH(2) [OF r] show ?thesis by simp
    qed }
qed

lemma copy_construct_loop_length:
  "copy_construct_loop E src f n d cur m tr = Throw e (m', tr') \<Longrightarrow> length m' = length m"
proof (induction n arbitrary: f cur m tr)
  case 0
  then show ?case by simp
next
  case (Suc n)
  from Suc.prems obtain x where x: "object_at src f = Some x"
    by (auto split: option.splits)
  show ?case
  proof (cases "copy_throws E tr x")
    case True
    with Suc.prems x show ?thesis by (auto split: option.splits dest: destroy_n_length)
  next
    case False
    with Suc.prems x obtain m1 where
      c: "construct_at m cur x = Some m1"
      and r: "copy_construct_loop E src (Suc f) n d (Suc cur) m1 (tr @ [Copied x]) = Throw e (m', tr')"
      by (auto split: option.splits)
    from construct_at_Some [OF c] Suc.IH [OF r] show ?thesis by simp
  qed
qed

lemma move_construct_loop_length:
  "move_construct_loop E f n d cur src m tr = Return (src', m', tr') \<Longrightarrow> length src' = length src"
  "move_construct_loop E f n d cur src m tr = Throw e (src', m', tr') \<Longrightarrow>
     length src' = length src \<and> length m' = length m"
proof (induction n arbitrary: f cur src m tr)
  case 0
  { case 1 then show ?case by simp }
  { case 2 then show ?case by simp }
next
  case (Suc n)
  { case 1
    then obtain x m1 where
      r: "move_construct_loop E (Suc f) n d (Suc cur) (src[f := Live (moved_from E x)]) m1
            (tr @ [Moved x]) = Return (src', m', tr')"
      by (auto split: option.splits if_splits)
    from Suc.IH(1) [OF r] show ?case by simp }
  { case 2
    then obtain x where x: "object_at src f = Some x"
      by (auto split: option.splits)
    show ?case
    proof (cases "move_throws E tr x")
      case True
      with 2 x show ?thesis by (auto split: option.splits dest: destroy_n_length)
    next
      case False
      with 2 x obtain m1 where
        c: "construct_at m cur x = Some m1"
        and r: "move_construct_loop E (Suc f) n d (Suc cur) (src[f := Live (moved_from E x)]) m1
              (tr @ [Moved x]) = Throw e (src', m', tr')"
        by (auto split: option.splits)
      from construct_at_Some [OF c] Suc.IH(2) [OF r] show ?thesis by simp
    qed }
qed

lemma relocate_n_length:
  "relocate_n E src f n m d tr = Return (src', m', tr') \<Longrightarrow> length src' = length src"
  "relocate_n E src f n m d tr = Throw e (src', m', tr') \<Longrightarrow>
     length src' = length src \<and> length m' = length m"
  by (auto simp: relocate_n_def uninitialized_move_n_def uninitialized_copy_n_def
      split: if_splits outcome.splits
      dest: move_construct_loop_length copy_construct_loop_length)

lemma copy_assign_loop_length:
  "copy_assign_loop E src f n d m tr = Return (m', tr') \<Longrightarrow> length m' = length m"
  "copy_assign_loop E src f n d m tr = Throw e (m', tr') \<Longrightarrow> length m' = length m"
proof (induction n arbitrary: f d m tr)
  case 0
  { case 1 then show ?case by simp }
  { case 2 then show ?case by simp }
next
  case (Suc n)
  { case 1
    then obtain x where
      "copy_assign_loop E src (Suc f) n (Suc d) (m[d := Live x]) (tr @ [CopyAssigned x]) = Return (m', tr')"
      by (auto split: option.splits if_splits)
    from Suc.IH(1) [OF this] show ?case by simp }
  { case 2
    then obtain x y where x: "object_at src f = Some x" and y: "object_at m d = Some y"
      by (auto split: option.splits)
    show ?case
    proof (cases "copy_assign_throws E tr y x")
      case True
      with 2 x y show ?thesis by simp
    next
      case False
      with 2 x y have
        "copy_assign_loop E src (Suc f) n (Suc d) (m[d := Live x]) (tr @ [CopyAssigned x]) = Throw e (m', tr')"
        by simp
      from Suc.IH(2) [OF this] show ?thesis by simp
    qed }
qed

lemma move_assign_loop_length:
  "move_assign_loop E f n d m tr = Return (m', tr') \<Longrightarrow> length m' = length m"
  "move_assign_loop E f n d m tr = Throw e (m', tr') \<Longrightarrow> length m' = length m"
proof (induction n arbitrary: f d m tr)
  case 0
  { case 1 then show ?case by simp }
  { case 2 then show ?case by simp }
next
  case (Suc n)
  { case 1
    then obtain x where
      "move_assign_loop E (Suc f) n (Suc d) (m[d := Live x, f := Live (moved_from E x)])
         (tr @ [MoveAssigned x]) = Return (m', tr')"
      by (auto split: option.splits if_splits)
    from Suc.IH(1) [OF this] show ?case by simp }
  { case 2
    then obtain x y where x: "object_at m f = Some x" and y: "object_at m d = Some y"
      by (auto split: option.splits)
    show ?case
    proof (cases "move_assign_throws E tr y x")
      case True
      with 2 x y show ?thesis by simp
    next
      case False
      with 2 x y have
        "move_assign_loop E (Suc f) n (Suc d) (m[d := Live x, f := Live (moved_from E x)])
           (tr @ [MoveAssigned x]) = Throw e (m', tr')"
        by simp
      from Suc.IH(2) [OF this] show ?thesis by simp
    qed }
qed

lemma move_backward_loop_length:
  "move_backward_loop E n l d m tr = Return (m', tr') \<Longrightarrow> length m' = length m"
  "move_backward_loop E n l d m tr = Throw e (m', tr') \<Longrightarrow> length m' = length m"
proof (induction n arbitrary: l d m tr)
  case 0
  { case 1 then show ?case by simp }
  { case 2 then show ?case by simp }
next
  case (Suc n)
  { case 1
    then obtain x where
      "move_backward_loop E n (l - 1) (d - 1) (m[d - 1 := Live x, l - 1 := Live (moved_from E x)])
         (tr @ [MoveAssigned x]) = Return (m', tr')"
      by (auto split: option.splits if_splits)
    from Suc.IH(1) [OF this] show ?case by simp }
  { case 2
    then have ne: "\<not> (l = 0 \<or> d = 0)" by (auto split: if_splits)
    with 2 obtain x y where x: "object_at m (l - 1) = Some x" and y: "object_at m (d - 1) = Some y"
      by (auto split: option.splits)
    show ?case
    proof (cases "move_assign_throws E tr y x")
      case True
      with 2 ne x y show ?thesis by simp
    next
      case False
      with 2 ne x y have
        "move_backward_loop E n (l - 1) (d - 1) (m[d - 1 := Live x, l - 1 := Live (moved_from E x)])
           (tr @ [MoveAssigned x]) = Throw e (m', tr')"
        by simp
      from Suc.IH(2) [OF this] show ?thesis by simp
    qed }
qed

lemma construct_length:
  "construct E a m tr = Return (x, m', ev) \<Longrightarrow> length m' = length m"
  by (auto simp: construct_def split: ctor_args.splits rvalue.splits option.splits if_splits)

lemma slots_store_length: "length m = length (slots p) \<Longrightarrow> slots (store p m) = m"
  by (cases p) (simp_all add: slots_def store_def)

lemma buffer_with_buffer: "length m = length (buffer v) \<Longrightarrow> buffer (with_buffer v m) = m"
  by (simp add: buffer_def with_buffer_def rm_slots_def rm_store_def slots_store_length)

lemma rm_slots_store: "length m = length (rm_slots d) \<Longrightarrow> rm_slots (rm_store d m) = m"
  by (simp add: rm_slots_def rm_store_def slots_store_length)

lemma in_bounds_with_buffer:
  "in_bounds v \<Longrightarrow> length m = length (buffer v) \<Longrightarrow> in_bounds (with_buffer v m)"
  by (simp add: in_bounds_def buffer_with_buffer)

lemma RawMemory_ctor_bounds:
  assumes "RawMemory_ctor E n tr = Return (d, tr')"
  shows "rm_capacity d = n \<and> length (rm_slots d) \<le> n"
  using RawMemory_ctor_return [OF assms] RawMemory_ctor_slots [OF assms] block_slots_le [of E n]
  by simp

text \<open>
  The end of a growth branch: the new block, which has a slot at index \<open>sz\<close>, becomes the
  block of the vector, and the length becomes \<open>sz + 1\<close>.
\<close>

lemma grown_in_bounds:
  assumes c: "RawMemory_ctor E n tr = Return (nd, tr1)"
    and nb: "length nb = length (rm_slots nd)" and sz: "vec_size v < length nb"
    and r: "replace_storage v (rm_store nd nb) tr2 = Some (v1, tr3)"
  shows "in_bounds (v1\<lparr>vec_size := vec_size v1 + 1\<rparr>) \<and> vec_size v < block_slots E n"
proof -
  from replace_storage_numbers [OF r] have s: "vec_size v1 = vec_size v" and d: "vec_data v1 = rm_store nd nb"
    by simp_all
  have "buffer (v1\<lparr>vec_size := vec_size v1 + 1\<rparr>) = nb"
    using d nb by (simp add: buffer_def rm_slots_store)
  moreover have "rm_capacity (vec_data (v1\<lparr>vec_size := vec_size v1 + 1\<rparr>)) = n"
    using d RawMemory_ctor_bounds [OF c] by simp
  moreover have "length nb = block_slots E n"
    using nb RawMemory_ctor_slots [OF c] by simp
  ultimately show ?thesis
    using s sz nb RawMemory_ctor_bounds [OF c] by (simp add: in_bounds_def)
qed

lemma PushBack_in_bounds:
  assumes "in_bounds v"
    and "PushBack E a v tr = Return (v', tr') \<or> PushBack E a v tr = Throw e (v', tr')"
  shows "in_bounds v'
     \<and> (Capacity v \<le> vec_size v \<longrightarrow> PushBack E a v tr = Return (v', tr') \<longrightarrow>
          vec_size v < block_slots E (grown (vec_size v)))"
proof (cases "Capacity v \<le> vec_size v")
  case False
  then have lt: "vec_size v < rm_capacity (vec_data v)"
    by (simp add: Capacity_def RawMemory_Capacity_def)
  from assms(2) False show ?thesis
  proof (cases "construct E a (buffer v) tr")
    case (Return q)
    obtain x m0 ev where q: "q = (x, m0, ev)" by (cases q) auto
    from assms(2) False Return q obtain m where
      c: "construct_at m0 (vec_size v) x = Some m"
      and v': "v' = (with_buffer v m)\<lparr>vec_size := vec_size v + 1\<rparr>"
      by (auto simp: PushBack_def split: option.splits)
    from construct_length [OF Return [unfolded q]] construct_at_Some [OF c]
    have "length m = length (buffer v)" and "vec_size v < length m" by simp_all
    with assms(1) False show ?thesis
      unfolding v' by (simp add: in_bounds_def buffer_def with_buffer_def rm_slots_def rm_store_def
          slots_store_length)
  next
    case (Throw e1 u)
    with assms False show ?thesis by (auto simp: PushBack_def)
  next
    case Undefined
    with assms False show ?thesis by (auto simp: PushBack_def)
  qed
next
  case True
  show ?thesis
  proof (cases "RawMemory_ctor E (grown (vec_size v)) tr")
    case Undefined
    with assms True show ?thesis by (auto simp: PushBack_def)
  next
    case (Throw e1 t)
    with assms True show ?thesis by (auto simp: PushBack_def)
  next
    case (Return p)
    obtain nd tr1 where p: "p = (nd, tr1)" by (cases p) auto
    note ctor = Return [unfolded p]
    show ?thesis
    proof (cases "construct E a (buffer v) tr1")
      case Undefined
      with assms True ctor show ?thesis by (auto simp: PushBack_def)
    next
      case (Throw e1 u)
      with assms True ctor show ?thesis
        by (auto simp: PushBack_def dest: unwind_cases(1) simp: unwind_cases(2))
    next
      case c: (Return q)
      obtain x src0 ev where q: "q = (x, src0, ev)" by (cases q) auto
      note l0 = construct_length [OF c [unfolded q]]
      show ?thesis
      proof (cases "construct_at (rm_slots nd) (vec_size v) x")
        case None
        with assms True ctor c q show ?thesis by (auto simp: PushBack_def)
      next
        case (Some nb0)
        note ca = construct_at_Some [OF Some]
        show ?thesis
        proof (cases "relocate_n E src0 0 (vec_size v) nb0 0 (tr1 @ [ev])")
          case Undefined
          with assms True ctor c q Some show ?thesis by (auto simp: PushBack_def)
        next
          case (Throw e1 s)
          obtain src nb tr2 where s: "s = (src, nb, tr2)" by (cases s) auto
          from assms(2) True ctor c q Some Throw s have "v' = with_buffer v src"
            by (auto simp: PushBack_def unwind_cases(2) dest: unwind_cases(1))
          moreover have "PushBack E a v tr \<noteq> Return (v', tr')"
            using True ctor c q Some Throw s by (auto simp: PushBack_def unwind_cases(2))
          ultimately show ?thesis
            using relocate_n_length(2) [OF Throw [unfolded s]] l0 assms(1)
            by (simp add: in_bounds_with_buffer)
        next
          case r: (Return s)
          obtain src nb tr2 where s: "s = (src, nb, tr2)" by (cases s) auto
          from assms(2) True ctor c q Some r s obtain v1 tr3 where
            rs: "replace_storage (with_buffer v src) (rm_store nd nb) tr2 = Some (v1, tr3)"
            and v': "v' = v1\<lparr>vec_size := vec_size v1 + 1\<rparr>"
            by (auto simp: PushBack_def split: option.splits)
          from relocate_n_room [OF r [unfolded s]] ca
          have nb: "length nb = length (rm_slots nd)" and sz: "vec_size (with_buffer v src) < length nb"
            by simp_all
          show ?thesis
            unfolding v' using grown_in_bounds [OF ctor nb sz rs] by simp
        qed
      qed
    qed
  qed
qed

lemma EmplaceBack_in_bounds:
  assumes "in_bounds v"
    and "EmplaceBack E a v tr = Return (i, v', tr') \<or> EmplaceBack E a v tr = Throw e (v', tr')"
  shows "in_bounds v'
     \<and> (Capacity v \<le> vec_size v \<longrightarrow> EmplaceBack E a v tr = Return (i, v', tr') \<longrightarrow>
          vec_size v < block_slots E (grown (vec_size v)))"
proof (cases "Capacity v \<le> vec_size v")
  case False
  from assms(2) False show ?thesis
  proof (cases "construct E a (buffer v) tr")
    case (Return q)
    obtain x m0 ev where q: "q = (x, m0, ev)" by (cases q) auto
    from assms(2) False Return q obtain m where
      c: "construct_at m0 (vec_size v) x = Some m"
      and v': "v' = (with_buffer v m)\<lparr>vec_size := vec_size v + 1\<rparr>"
      by (auto simp: EmplaceBack_def split: option.splits)
    from construct_length [OF Return [unfolded q]] construct_at_Some [OF c]
    have "length m = length (buffer v)" and "vec_size v < length m" by simp_all
    with assms(1) False show ?thesis
      unfolding v' by (simp add: in_bounds_def buffer_def with_buffer_def rm_slots_def rm_store_def
          slots_store_length)
  next
    case (Throw e1 u)
    with assms False show ?thesis by (auto simp: EmplaceBack_def)
  next
    case Undefined
    with assms False show ?thesis by (auto simp: EmplaceBack_def)
  qed
next
  case True
  show ?thesis
  proof (cases "RawMemory_ctor E (grown (vec_size v)) tr")
    case Undefined
    with assms True show ?thesis by (auto simp: EmplaceBack_def)
  next
    case (Throw e1 t)
    with assms True show ?thesis by (auto simp: EmplaceBack_def)
  next
    case (Return p)
    obtain nd tr1 where p: "p = (nd, tr1)" by (cases p) auto
    note ctor = Return [unfolded p]
    show ?thesis
    proof (cases "construct E a (buffer v) tr1")
      case Undefined
      with assms True ctor show ?thesis by (auto simp: EmplaceBack_def)
    next
      case (Throw e1 u)
      with assms True ctor show ?thesis
        by (auto simp: EmplaceBack_def dest: unwind_cases(1) simp: unwind_cases(2))
    next
      case c: (Return q)
      obtain x src0 ev where q: "q = (x, src0, ev)" by (cases q) auto
      note l0 = construct_length [OF c [unfolded q]]
      show ?thesis
      proof (cases "construct_at (rm_slots nd) (vec_size v) x")
        case None
        with assms True ctor c q show ?thesis by (auto simp: EmplaceBack_def)
      next
        case (Some nb0)
        note ca = construct_at_Some [OF Some]
        show ?thesis
        proof (cases "relocate_n E src0 0 (vec_size v) nb0 0 (tr1 @ [ev])")
          case Undefined
          with assms True ctor c q Some show ?thesis by (auto simp: EmplaceBack_def)
        next
          case (Throw e1 s)
          obtain src nb tr2 where s: "s = (src, nb, tr2)" by (cases s) auto
          from assms(2) True ctor c q Some Throw s have "v' = with_buffer v src"
            by (auto simp: EmplaceBack_def unwind_cases(2) dest: unwind_cases(1))
          moreover have "EmplaceBack E a v tr \<noteq> Return (i, v', tr')"
            using True ctor c q Some Throw s by (auto simp: EmplaceBack_def unwind_cases(2))
          ultimately show ?thesis
            using relocate_n_length(2) [OF Throw [unfolded s]] l0 assms(1)
            by (simp add: in_bounds_with_buffer)
        next
          case r: (Return s)
          obtain src nb tr2 where s: "s = (src, nb, tr2)" by (cases s) auto
          from assms(2) True ctor c q Some r s obtain v1 tr3 where
            rs: "replace_storage (with_buffer v src) (rm_store nd nb) tr2 = Some (v1, tr3)"
            and v': "v' = v1\<lparr>vec_size := vec_size v1 + 1\<rparr>"
            by (auto simp: EmplaceBack_def split: option.splits)
          from relocate_n_room [OF r [unfolded s]] ca
          have nb: "length nb = length (rm_slots nd)" and sz: "vec_size (with_buffer v src) < length nb"
            by simp_all
          show ?thesis
            unfolding v' using grown_in_bounds [OF ctor nb sz rs] by simp
        qed
      qed
    qed
  qed
qed

lemma Emplace_grow_in_bounds:
  assumes "in_bounds v"
  shows "Emplace_grow E p a v tr = Return (v1, tr') \<Longrightarrow>
           in_bounds (v1\<lparr>vec_size := vec_size v1 + 1\<rparr>)
           \<and> vec_size v < block_slots E (grown (vec_size v))"
    and "Emplace_grow E p a v tr = Throw e (v', tr') \<Longrightarrow> in_bounds v'"
proof -
  have "(Emplace_grow E p a v tr = Return (v1, tr') \<longrightarrow>
           in_bounds (v1\<lparr>vec_size := vec_size v1 + 1\<rparr>)
           \<and> vec_size v < block_slots E (grown (vec_size v)))
      \<and> (Emplace_grow E p a v tr = Throw e (v', tr') \<longrightarrow> in_bounds v')"
  proof (cases "RawMemory_ctor E (grown (vec_size v)) tr")
    case Undefined
    then show ?thesis by (simp add: Emplace_grow_def)
  next
    case (Throw e1 t)
    with assms show ?thesis by (auto simp: Emplace_grow_def)
  next
    case (Return q)
    obtain nd tr1 where q: "q = (nd, tr1)" by (cases q) auto
    note ctor = Return [unfolded q]
    show ?thesis
    proof (cases "p < 0")
      case True
      with ctor show ?thesis by (simp add: Emplace_grow_def)
    next
      case p0: False
      show ?thesis
      proof (cases "construct E a (buffer v) tr1")
        case Undefined
        with ctor p0 show ?thesis by (simp add: Emplace_grow_def)
      next
        case (Throw e1 u)
        with assms ctor p0 show ?thesis
          by (auto simp: Emplace_grow_def unwind_cases(2) dest: unwind_cases(1))
      next
        case c: (Return q1)
        obtain x src0 ev where q1: "q1 = (x, src0, ev)" by (cases q1) auto
        note l0 = construct_length [OF c [unfolded q1]]
        show ?thesis
        proof (cases "construct_at (rm_slots nd) (nat p) x")
          case None
          with ctor p0 c q1 show ?thesis by (simp add: Emplace_grow_def)
        next
          case (Some nb0)
          note ca = construct_at_Some [OF Some]
          show ?thesis
          proof (cases "relocate_n E src0 0 (nat p) nb0 0 (tr1 @ [ev])")
            case Undefined
            with ctor p0 c q1 Some show ?thesis by (simp add: Emplace_grow_def)
          next
            case (Throw e1 s)
            obtain src nb tr2 where s: "s = (src, nb, tr2)" by (cases s) auto
            have "Emplace_grow E p a v tr = Throw e (v', tr') \<Longrightarrow> v' = with_buffer v src"
              using ctor p0 c q1 Some Throw s
              by (auto simp: Emplace_grow_def dest: unwind_cases(1))
            moreover have "Emplace_grow E p a v tr \<noteq> Return (v1, tr')"
              using ctor p0 c q1 Some Throw s
              by (auto simp: Emplace_grow_def unwind_cases(2))
            ultimately show ?thesis
              using relocate_n_length(2) [OF Throw [unfolded s]] l0 assms
              by (auto simp: in_bounds_with_buffer)
          next
            case r1: (Return s)
            obtain src1 nb1 tr2 where s: "s = (src1, nb1, tr2)" by (cases s) auto
            note rm1 = relocate_n_room [OF r1 [unfolded s]]
            note ln1 = relocate_n_length(1) [OF r1 [unfolded s]]
            show ?thesis
            proof (cases "vec_size v < nat p")
              case True
              with ctor p0 c q1 Some r1 s show ?thesis by (simp add: Emplace_grow_def)
            next
              case le: False
              let ?rel = "relocate_n E src1 (nat p) (vec_size v - nat p) nb1 (nat p + 1) tr2"
              show ?thesis
              proof (cases ?rel)
                case Undefined
                with ctor p0 c q1 Some r1 s le show ?thesis by (simp add: Emplace_grow_def)
              next
                case (Throw e1 s2)
                obtain src nb tr3 where s2: "s2 = (src, nb, tr3)" by (cases s2) auto
                have "Emplace_grow E p a v tr = Throw e (v', tr') \<Longrightarrow> v' = with_buffer v src"
                  using ctor p0 c q1 Some r1 s le Throw s2
                  by (auto simp: Emplace_grow_def dest: unwind_cases(1))
                moreover have "Emplace_grow E p a v tr \<noteq> Return (v1, tr')"
                  using ctor p0 c q1 Some r1 s le Throw s2
                  by (auto simp: Emplace_grow_def unwind_cases(2))
                ultimately show ?thesis
                  using relocate_n_length(2) [OF Throw [unfolded s2]] ln1 l0 assms
                  by (auto simp: in_bounds_with_buffer)
              next
                case r2: (Return s2)
                obtain src nb tr3 where s2: "s2 = (src, nb, tr3)" by (cases s2) auto
                note rm2 = relocate_n_room [OF r2 [unfolded s2]]
                have nb: "length nb = length (rm_slots nd)"
                  using rm2 rm1 ca by simp
                have sz: "vec_size (with_buffer v src) < length nb"
                  using rm2 rm1 ca le by (cases "vec_size v - nat p = 0") auto
                have ret: "Emplace_grow E p a v tr
                    = (case replace_storage (with_buffer v src) (rm_store nd nb) tr3 of
                         None \<Rightarrow> Undefined | Some s \<Rightarrow> Return s)"
                  using ctor p0 c q1 Some r1 s le r2 s2 by (simp add: Emplace_grow_def)
                show ?thesis
                proof (cases "replace_storage (with_buffer v src) (rm_store nd nb) tr3")
                  case None
                  with ret show ?thesis by simp
                next
                  case rs: (Some w)
                  obtain w1 tr4 where w: "w = (w1, tr4)" by (cases w) auto
                  from grown_in_bounds [OF ctor nb sz rs [unfolded w]] ret rs w show ?thesis
                    by auto
                qed
              qed
            qed
          qed
        qed
      qed
    qed
  qed
  then show "Emplace_grow E p a v tr = Return (v1, tr') \<Longrightarrow>
           in_bounds (v1\<lparr>vec_size := vec_size v1 + 1\<rparr>)
           \<and> vec_size v < block_slots E (grown (vec_size v))"
    and "Emplace_grow E p a v tr = Throw e (v', tr') \<Longrightarrow> in_bounds v'"
    by simp_all
qed

lemma Emplace_try_length:
  "Emplace_try E pos p a v tr = Return (m, tr') \<Longrightarrow> length m = length (buffer v) \<and> vec_size v < length m"
  "Emplace_try E pos p a v tr = Throw e (m, tr') \<Longrightarrow> length m = length (buffer v)"
  by (auto simp: Emplace_try_def std_move_backward_def
      split: if_splits option.splits outcome.splits
      dest!: construct_length construct_at_Some move_backward_loop_length)

lemma Emplace_in_bounds:
  assumes "in_bounds v"
    and "Emplace E pos a v tr = Return (i, v', tr') \<or> Emplace E pos a v tr = Throw e (v', tr')"
  shows "in_bounds v'"
proof (cases "Capacity v \<le> vec_size v")
  case True
  with assms(2) Emplace_grow_in_bounds [OF assms(1), where E = E and p = "to_int pos" and a = a and tr = tr]
  show ?thesis
    by (auto simp: Emplace_def Let_def split: outcome.splits if_splits)
next
  case False
  show ?thesis
  proof (cases "Emplace_try E pos (to_int pos) a v tr")
    case Undefined
    with assms(2) False show ?thesis by (simp add: Emplace_def Let_def)
  next
    case (Return r)
    obtain m tr1 where r: "r = (m, tr1)" by (cases r) auto
    from assms(2) False Return r have v': "v' = (with_buffer v m)\<lparr>vec_size := vec_size v + 1\<rparr>"
      by (auto simp: Emplace_def Let_def split: if_splits)
    from Emplace_try_length(1) [OF Return [unfolded r]] assms(1) show ?thesis
      unfolding v' by (simp add: in_bounds_def buffer_def with_buffer_def rm_slots_def rm_store_def
          slots_store_length)
  next
    case (Throw e1 s)
    obtain m tr1 where s: "s = (m, tr1)" by (cases s) auto
    from assms(2) False Throw s obtain p tr2 where
      d: "operator_delete (store (rm_buffer (vec_data v)) m) (vec_size v) tr1 = Some (p, tr2)"
      and v': "v' = v\<lparr>vec_data := (vec_data v)\<lparr>rm_buffer := p\<rparr>\<rparr>"
      by (auto simp: Emplace_def Let_def split: option.splits)
    from d have "vec_size v = 0" and "slots p = []"
      by (auto simp: operator_delete_def slots_def split: pointer.splits if_splits)
    then show ?thesis
      unfolding v' by (simp add: in_bounds_def buffer_def rm_slots_def)
  qed
qed

lemma Reserve_in_bounds:
  assumes "in_bounds v"
  shows "Reserve E n v tr = Return (v', tr') \<Longrightarrow>
           in_bounds v' \<and> vec_size v' = vec_size v \<and> n \<le> rm_capacity (vec_data v')
           \<and> (vec_size v < n \<longrightarrow> n \<le> rm_capacity (vec_data v) \<or> vec_size v \<le> length (buffer v'))"
    and "Reserve E n v tr = Throw e (v', tr') \<Longrightarrow> in_bounds v'"
proof -
  have "(Reserve E n v tr = Return (v', tr') \<longrightarrow>
           in_bounds v' \<and> vec_size v' = vec_size v \<and> n \<le> rm_capacity (vec_data v'))
      \<and> (Reserve E n v tr = Throw e (v', tr') \<longrightarrow> in_bounds v')"
  proof (cases "n \<le> Capacity v")
    case True
    with assms show ?thesis
      by (auto simp: Reserve_def Capacity_def RawMemory_Capacity_def)
  next
    case False
    show ?thesis
    proof (cases "RawMemory_ctor E n tr")
      case Undefined
      with False show ?thesis by (simp add: Reserve_def)
    next
      case (Throw e1 t)
      with False assms show ?thesis by (auto simp: Reserve_def)
    next
      case (Return q)
      obtain nd tr1 where q: "q = (nd, tr1)" by (cases q) auto
      note ctor = Return [unfolded q]
      show ?thesis
      proof (cases "relocate_n E (buffer v) 0 (vec_size v) (rm_slots nd) 0 tr1")
        case Undefined
        with False ctor show ?thesis by (simp add: Reserve_def)
      next
        case (Throw e1 s)
        obtain src nb tr2 where s: "s = (src, nb, tr2)" by (cases s) auto
        have "Reserve E n v tr = Throw e (v', tr') \<Longrightarrow> v' = with_buffer v src"
          using False ctor Throw s by (auto simp: Reserve_def dest: unwind_cases(1))
        moreover have "Reserve E n v tr \<noteq> Return (v', tr')"
          using False ctor Throw s by (auto simp: Reserve_def unwind_cases(2))
        ultimately show ?thesis
          using relocate_n_length(2) [OF Throw [unfolded s]] assms
          by (auto simp: in_bounds_with_buffer)
      next
        case r: (Return s)
        obtain src nb tr2 where s: "s = (src, nb, tr2)" by (cases s) auto
        note rm = relocate_n_room [OF r [unfolded s]]
        have ret: "Reserve E n v tr
            = (case replace_storage (with_buffer v src) (rm_store nd nb) tr2 of
                 None \<Rightarrow> Undefined | Some s \<Rightarrow> Return s)"
          using False ctor r s by (simp add: Reserve_def)
        show ?thesis
        proof (cases "replace_storage (with_buffer v src) (rm_store nd nb) tr2")
          case None
          with ret show ?thesis by simp
        next
          case rs: (Some w)
          obtain w1 tr3 where w: "w = (w1, tr3)" by (cases w) auto
          from replace_storage_numbers [OF rs [unfolded w]]
          have sz: "vec_size w1 = vec_size v" and d: "vec_data w1 = rm_store nd nb" by simp_all
          have b: "buffer w1 = nb" using d rm by (simp add: buffer_def rm_slots_store)
          have "vec_size v \<le> length nb" using rm by (cases "vec_size v = 0") auto
          then have "in_bounds w1"
            using sz b d rm RawMemory_ctor_bounds [OF ctor] by (simp add: in_bounds_def)
          with ret rs w sz d RawMemory_ctor_bounds [OF ctor] show ?thesis by auto
        qed
      qed
    qed
  qed
  then show "Reserve E n v tr = Return (v', tr') \<Longrightarrow>
           in_bounds v' \<and> vec_size v' = vec_size v \<and> n \<le> rm_capacity (vec_data v')
           \<and> (vec_size v < n \<longrightarrow> n \<le> rm_capacity (vec_data v) \<or> vec_size v \<le> length (buffer v'))"
    and "Reserve E n v tr = Throw e (v', tr') \<Longrightarrow> in_bounds v'"
    by (auto simp: in_bounds_def)
qed

lemma Resize_in_bounds:
  assumes "in_bounds v"
    and "Resize E n v tr = Return (v', tr') \<or> Resize E n v tr = Throw e (v', tr')"
  shows "in_bounds v'"
proof (cases "n < vec_size v")
  case True
  with assms show ?thesis
    by (auto simp: Resize_def in_bounds_def buffer_with_buffer buffer_def with_buffer_def
        rm_slots_def rm_store_def slots_store_length
        split: option.splits dest!: destroy_n_length)
next
  case False
  show ?thesis
  proof (cases "Reserve E n v tr")
    case Undefined
    with assms(2) False show ?thesis by (simp add: Resize_def)
  next
    case (Throw e1 s)
    obtain w t where "s = (w, t)" by (cases s) auto
    with assms(2) False Throw Reserve_in_bounds(2) [OF assms(1), of E n tr e1 w t] show ?thesis
      by (auto simp: Resize_def)
  next
    case (Return s)
    obtain v1 tr1 where s: "s = (v1, tr1)" by (cases s) auto
    from Reserve_in_bounds(1) [OF assms(1) Return [unfolded s]]
    have b1: "in_bounds v1" and sz: "vec_size v1 = vec_size v" and cap: "n \<le> rm_capacity (vec_data v1)"
      by simp_all
    let ?u = "uninitialized_value_construct_n E (vec_size v1) (n - vec_size v1) (buffer v1) tr1"
    show ?thesis
    proof (cases ?u)
      case Undefined
      with assms(2) False Return s show ?thesis by (simp add: Resize_def)
    next
      case t: (Throw e1 q)
      obtain m tr2 where q: "q = (m, tr2)" by (cases q) auto
      from assms(2) False Return s t q have v': "v' = with_buffer v1 m"
        by (auto simp: Resize_def)
      from t q have "length m = length (buffer v1)"
        by (auto simp: uninitialized_value_construct_n_def dest: value_construct_loop_length(2))
      with b1 show ?thesis unfolding v' by (rule in_bounds_with_buffer)
    next
      case r: (Return q)
      obtain m tr2 where q: "q = (m, tr2)" by (cases q) auto
      from assms(2) False Return s r q have v': "v' = (with_buffer v1 m)\<lparr>vec_size := n\<rparr>"
        by (auto simp: Resize_def)
      from r q have l: "length m = length (buffer v1)"
        and room: "n - vec_size v1 \<noteq> 0 \<longrightarrow> vec_size v1 + (n - vec_size v1) \<le> length (buffer v1)"
        by (auto simp: uninitialized_value_construct_n_def dest: value_construct_loop_length(1))
      have "n \<le> length m"
        using room l b1 False sz by (cases "n - vec_size v1 = 0") (auto simp: in_bounds_def)
      with b1 l show ?thesis
        unfolding v' by (simp add: in_bounds_def buffer_def with_buffer_def rm_slots_def rm_store_def
            slots_store_length)
    qed
  qed
qed

lemma shortened_in_bounds:
  "in_bounds v \<Longrightarrow> length m = length (buffer v) \<Longrightarrow> n \<le> vec_size v \<Longrightarrow>
   in_bounds ((with_buffer v m)\<lparr>vec_size := n\<rparr>)"
  by (simp add: in_bounds_def buffer_def with_buffer_def rm_slots_def rm_store_def slots_store_length)

lemma PopBack_in_bounds:
  assumes "in_bounds v" and "PopBack v tr = Some (v', tr')"
  shows "in_bounds v'"
proof -
  from assms(2) obtain m where
    d: "destroy_n (vec_size v - 1) (Suc 0) (buffer v) tr = Some (m, tr')"
    and v': "v' = (with_buffer v m)\<lparr>vec_size := vec_size v - 1\<rparr>"
    by (auto simp: PopBack_def split: if_splits option.splits)
  from destroy_n_length [OF d] assms(1) show ?thesis
    unfolding v' by (intro shortened_in_bounds) simp_all
qed

lemma Erase_in_bounds:
  assumes "in_bounds v"
    and "Erase E pos v tr = Return (i, v', tr') \<or> Erase E pos v tr = Throw e (v', tr')"
  shows "in_bounds v'"
proof -
  let ?p = "nat (to_int pos)"
  from assms(2) have p0: "\<not> to_int pos < 0"
    by (auto simp: Erase_def Let_def split: if_splits)
  show ?thesis
  proof (cases "std_move E (?p + 1) (vec_size v) ?p (buffer v) tr")
    case Undefined
    with assms(2) p0 show ?thesis by (simp add: Erase_def Let_def)
  next
    case (Throw e1 s)
    obtain m tr1 where s: "s = (m, tr1)" by (cases s) auto
    from assms(2) p0 Throw s have v': "v' = with_buffer v m"
      by (auto simp: Erase_def Let_def)
    from Throw s have "length m = length (buffer v)"
      by (auto simp: std_move_def split: if_splits dest: move_assign_loop_length(2))
    with assms(1) show ?thesis unfolding v' by (rule in_bounds_with_buffer)
  next
    case (Return s)
    obtain m tr1 where s: "s = (m, tr1)" by (cases s) auto
    from assms(2) p0 Return s obtain m2 where
      d: "destroy_n (vec_size v - 1) (Suc 0) m tr1 = Some (m2, tr')"
      and v': "v' = (with_buffer v m2)\<lparr>vec_size := vec_size v - 1\<rparr>"
      by (auto simp: Erase_def Let_def split: if_splits option.splits)
    from Return s have "length m = length (buffer v)"
      by (auto simp: std_move_def split: if_splits dest: move_assign_loop_length(1))
    with destroy_n_length [OF d] assms(1) show ?thesis
      unfolding v' by (intro shortened_in_bounds) simp_all
  qed
qed

lemma Vector_sized_in_bounds:
  assumes "Vector_sized E n tr = Return (v, tr')"
  shows "in_bounds v"
proof -
  from assms obtain d tr1 m where
    c: "RawMemory_ctor E n tr = Return (d, tr1)"
    and u: "uninitialized_value_construct_n E 0 n (rm_slots d) tr1 = Return (m, tr')"
    and v: "v = \<lparr>vec_data = rm_store d m, vec_size = n\<rparr>"
    by (auto simp: Vector_sized_def split: outcome.splits option.splits)
  from u have l: "length m = length (rm_slots d)" and room: "n \<noteq> 0 \<longrightarrow> n \<le> length (rm_slots d)"
    by (auto simp: uninitialized_value_construct_n_def dest: value_construct_loop_length(1))
  from room have "n \<le> length (rm_slots d)" by (cases "n = 0") auto
  with l RawMemory_ctor_bounds [OF c] show ?thesis
    unfolding v by (simp add: in_bounds_def buffer_def rm_slots_store)
qed

lemma Vector_copy_ctor_in_bounds:
  assumes "Vector_copy_ctor E other tr = Return (v, tr')"
  shows "in_bounds v \<and> vec_size v = vec_size other \<and> rm_capacity (vec_data v) = vec_size other"
proof -
  let ?n = "vec_size other"
  from assms obtain d tr1 m where
    c: "RawMemory_ctor E ?n tr = Return (d, tr1)"
    and u: "uninitialized_copy_n E (buffer other) 0 ?n (rm_slots d) 0 tr1 = Return (m, tr')"
    and v: "v = \<lparr>vec_data = rm_store d m, vec_size = ?n\<rparr>"
    by (auto simp: Vector_copy_ctor_def split: outcome.splits option.splits)
  from u have l: "length m = length (rm_slots d)" and room: "?n \<noteq> 0 \<longrightarrow> ?n \<le> length (rm_slots d)"
    by (auto simp: uninitialized_copy_n_def dest: copy_construct_loop_room)
  from room have "?n \<le> length (rm_slots d)" by (cases "?n = 0") auto
  with l RawMemory_ctor_bounds [OF c] show ?thesis
    unfolding v by (simp add: in_bounds_def buffer_def rm_slots_store)
qed

lemma Swap_in_bounds:
  assumes "in_bounds v" and "in_bounds other" and "Swap v other tr = (v', other', tr')"
  shows "in_bounds v' \<and> in_bounds other'"
  using assms by (auto simp: Swap_def RawMemory_Swap_def in_bounds_def buffer_def rm_slots_def)

lemma Vector_move_ctor_in_bounds:
  assumes "in_bounds other" and "Vector_move_ctor other tr = (v, other', tr')"
  shows "in_bounds v \<and> in_bounds other'"
  using assms
  by (auto simp: Vector_move_ctor_def RawMemory_move_ctor_def in_bounds_def buffer_def rm_slots_def
      slots_def)

lemma copy_assign_in_bounds:
  assumes "in_bounds v"
    and "copy_assign E v (Other rhs) tr = Return (v', tr')
       \<or> copy_assign E v (Other rhs) tr = Throw e (v', tr')"
  shows "in_bounds v'"
proof (cases "vec_size rhs > Capacity v")
  case True
  show ?thesis
  proof (cases "Vector_copy_ctor E rhs tr")
    case Undefined
    with assms(2) True show ?thesis by (simp add: copy_assign_def)
  next
    case (Throw e1 t)
    with assms True show ?thesis by (auto simp: copy_assign_def)
  next
    case (Return s)
    obtain c tr1 where s: "s = (c, tr1)" by (cases s) auto
    from Vector_copy_ctor_in_bounds [OF Return [unfolded s]] have "in_bounds c" by simp
    with assms True Return s show ?thesis
      by (auto simp: copy_assign_def Swap_def RawMemory_Swap_def in_bounds_def buffer_def rm_slots_def
          split: option.splits)
  qed
next
  case False
  then have cap: "vec_size rhs \<le> rm_capacity (vec_data v)"
    by (simp add: Capacity_def RawMemory_Capacity_def)
  show ?thesis
  proof (cases "vec_size v \<le> vec_size rhs")
    case le: True
    let ?c = "std_copy E (buffer rhs) 0 (vec_size v) (buffer v) 0 tr"
    show ?thesis
    proof (cases ?c)
      case Undefined
      with assms(2) False le show ?thesis by (simp add: copy_assign_def)
    next
      case (Throw e1 s)
      obtain m tr1 where s: "s = (m, tr1)" by (cases s) auto
      from assms(2) False le Throw s have v': "v' = with_buffer v m"
        by (auto simp: copy_assign_def)
      from Throw s have "length m = length (buffer v)"
        by (auto simp: std_copy_def split: if_splits dest: copy_assign_loop_length(2))
      with assms(1) show ?thesis unfolding v' by (rule in_bounds_with_buffer)
    next
      case (Return s)
      obtain m tr1 where s: "s = (m, tr1)" by (cases s) auto
      from Return s have lm: "length m = length (buffer v)"
        by (auto simp: std_copy_def split: if_splits dest: copy_assign_loop_length(1))
      let ?u = "uninitialized_copy_n E (buffer rhs) (vec_size v) (vec_size rhs - vec_size v) m (vec_size v) tr1"
      show ?thesis
      proof (cases ?u)
        case Undefined
        with assms(2) False le Return s show ?thesis by (simp add: copy_assign_def)
      next
        case t: (Throw e1 q)
        obtain m2 tr2 where q: "q = (m2, tr2)" by (cases q) auto
        from assms(2) False le Return s t q have v': "v' = with_buffer v m2"
          by (auto simp: copy_assign_def)
        from t q have "length m2 = length m"
          by (auto simp: uninitialized_copy_n_def dest: copy_construct_loop_length)
        with lm assms(1) show ?thesis unfolding v' by (simp add: in_bounds_with_buffer)
      next
        case r: (Return q)
        obtain m2 tr2 where q: "q = (m2, tr2)" by (cases q) auto
        from assms(2) False le Return s r q have v': "v' = (with_buffer v m2)\<lparr>vec_size := vec_size rhs\<rparr>"
          by (auto simp: copy_assign_def)
        from r q have l2: "length m2 = length m"
          and room: "vec_size rhs - vec_size v \<noteq> 0 \<longrightarrow>
                vec_size v + (vec_size rhs - vec_size v) \<le> length m"
          by (auto simp: uninitialized_copy_n_def dest: copy_construct_loop_room)
        have "vec_size rhs \<le> length m2"
          using room l2 lm le assms(1)
          by (cases "vec_size rhs - vec_size v = 0") (auto simp: in_bounds_def)
        with assms(1) l2 lm show ?thesis
          unfolding v' by (simp add: in_bounds_def buffer_def with_buffer_def rm_slots_def rm_store_def
              slots_store_length)
      qed
    qed
  next
    case gt: False
    let ?c = "std_copy E (buffer rhs) 0 (vec_size rhs) (buffer v) 0 tr"
    show ?thesis
    proof (cases ?c)
      case Undefined
      with assms(2) False gt show ?thesis by (simp add: copy_assign_def)
    next
      case (Throw e1 s)
      obtain m tr1 where s: "s = (m, tr1)" by (cases s) auto
      from assms(2) False gt Throw s have v': "v' = with_buffer v m"
        by (auto simp: copy_assign_def)
      from Throw s have "length m = length (buffer v)"
        by (auto simp: std_copy_def split: if_splits dest: copy_assign_loop_length(2))
      with assms(1) show ?thesis unfolding v' by (rule in_bounds_with_buffer)
    next
      case (Return s)
      obtain m tr1 where s: "s = (m, tr1)" by (cases s) auto
      from Return s have lm: "length m = length (buffer v)"
        by (auto simp: std_copy_def split: if_splits dest: copy_assign_loop_length(1))
      from assms(2) False gt Return s obtain m2 where
        d: "destroy_n (vec_size rhs) (vec_size v - vec_size rhs) m tr1 = Some (m2, tr')"
        and v': "v' = (with_buffer v m2)\<lparr>vec_size := vec_size rhs\<rparr>"
        by (auto simp: copy_assign_def split: option.splits)
      from destroy_n_length [OF d] lm assms(1) gt show ?thesis
        unfolding v' by (intro shortened_in_bounds) simp_all
    qed
  qed
qed

lemma reachable_in_bounds: "reachable E v \<Longrightarrow> in_bounds v"
proof (induction rule: reachable.induct)
  case by_default
  show ?case
    by (simp add: Vector_default_def RawMemory_default_def in_bounds_def buffer_def rm_slots_def slots_def)
next
  case (by_sized n tr v tr')
  then show ?case by (rule Vector_sized_in_bounds)
next
  case (by_copy other tr v tr')
  then show ?case using Vector_copy_ctor_in_bounds by blast
next
  case (by_move other tr v other' tr')
  then show ?case using Vector_move_ctor_in_bounds by blast
next
  case (by_move_source other tr v other' tr')
  then show ?case using Vector_move_ctor_in_bounds by blast
next
  case (by_Reserve v n tr v' tr')
  then show ?case using Reserve_in_bounds(1) by blast
next
  case (by_Reserve_throw v n tr e v' tr')
  then show ?case using Reserve_in_bounds(2) by blast
next
  case (by_Resize v n tr v' tr')
  then show ?case using Resize_in_bounds by blast
next
  case (by_Resize_throw v n tr e v' tr')
  then show ?case using Resize_in_bounds by blast
next
  case (by_PushBack v a tr v' tr')
  then show ?case using PushBack_in_bounds by blast
next
  case (by_PushBack_throw v a tr e v' tr')
  then show ?case using PushBack_in_bounds by blast
next
  case (by_EmplaceBack v a tr i v' tr')
  then show ?case using EmplaceBack_in_bounds by blast
next
  case (by_EmplaceBack_throw v a tr e v' tr')
  then show ?case using EmplaceBack_in_bounds by blast
next
  case (by_PopBack v tr v' tr')
  then show ?case using PopBack_in_bounds by blast
next
  case (by_Emplace v pos a tr i v' tr')
  then show ?case using Emplace_in_bounds by blast
next
  case (by_Emplace_throw v pos a tr e v' tr')
  then show ?case using Emplace_in_bounds by blast
next
  case (by_Insert v pos x tr i v' tr')
  then show ?case using Emplace_in_bounds unfolding Insert_def by blast
next
  case (by_Insert_throw v pos x tr e v' tr')
  then show ?case using Emplace_in_bounds unfolding Insert_def by blast
next
  case (by_Insert_rvalue v pos x tr i v' tr')
  then show ?case using Emplace_in_bounds unfolding Insert_rvalue_def by blast
next
  case (by_Insert_rvalue_throw v pos x tr e v' tr')
  then show ?case using Emplace_in_bounds unfolding Insert_rvalue_def by blast
next
  case (by_Erase v pos tr i v' tr')
  then show ?case using Erase_in_bounds by blast
next
  case (by_Erase_throw v pos tr e v' tr')
  then show ?case using Erase_in_bounds by blast
next
  case (by_copy_assign v rhs tr v' tr')
  then show ?case using copy_assign_in_bounds by blast
next
  case (by_copy_assign_throw v rhs tr e v' tr')
  then show ?case using copy_assign_in_bounds by blast
next
  case (by_copy_assign_self v tr v' tr')
  then show ?case by (simp add: copy_assign_def)
next
  case (by_move_assign v rhs tr v' rhs' tr')
  then show ?case using Swap_in_bounds unfolding move_assign_def by blast
next
  case (by_move_assign_source v rhs tr v' rhs' tr')
  then show ?case using Swap_in_bounds unfolding move_assign_def by blast
next
  case (by_Swap v other tr v' other' tr')
  then show ?case using Swap_in_bounds by blast
next
  case (by_Swap_other v other tr v' other' tr')
  then show ?case using Swap_in_bounds by blast
qed

section \<open>Evaluation of closed examples\<close>

text \<open>
  Allocations of fewer than 100 objects of four bytes, as the examples make them.
\<close>

lemma RawMemory_ctor_small:
  assumes "sizeof_T E = 4" and "n < 100"
  shows "RawMemory_ctor E n tr =
     (if n \<noteq> 0 \<and> new_throws E tr (n * 4) then Throw bad_alloc tr
      else Return (\<lparr>rm_buffer = block_ptr (replicate n Raw), rm_capacity = n\<rparr>,
                   if n = 0 then tr else tr @ [Allocated n]))"
proof -
  have "fits E n" using assms by (simp add: fits_def)
  from RawMemory_ctor_cases [OF this, of tr] assms(1) show ?thesis by simp
qed

lemma grown_small: "sz < 100 \<Longrightarrow> grown sz = (if sz = 0 then 1 else sz * 2)"
  by (simp add: grown_def size_t_small)

lemmas model_defs =
  construct_def object_at_def construct_at_def destroy_at_def
  uninitialized_value_construct_n_def uninitialized_copy_n_def uninitialized_move_n_def
  std_copy_def std_move_def std_move_backward_def
  slots_def store_def operator_delete_def rm_slots_def rm_store_def
  RawMemory_default_def Deallocate_def RawMemory_dtor_def RawMemory_ctor_small grown_small
  RawMemory_move_ctor_def RawMemory_Swap_def RawMemory_Capacity_def RawMemory_plus_def
  RawMemory_index_def to_int_def Vector_default_def Size_def
  Capacity_def buffer_def with_buffer_def at_def contents_def Vector_sized_def
  Vector_copy_ctor_def Vector_move_ctor_def Vector_dtor_def Swap_def relocate_n_def
  replace_storage_def unwind_def Reserve_def Resize_def PopBack_def PushBack_def
  EmplaceBack_def Emplace_grow_def Emplace_try_def Emplace_def Insert_def Insert_rvalue_def
  Erase_def copy_assign_def move_assign_def block_ptr_def vec_of_def int_env_def
  throwing_copy_env_def move_only_env_def do_call_def eval_nat_numeral

text \<open>
  The scenarios of the specification: three \<^verbatim>\<open>PushBack\<close> calls on an empty vector give
  length 3 and capacity 4 through the capacities 1, 2, 4; \<^verbatim>\<open>Insert\<close> at \<^verbatim>\<open>begin() + 1\<close>
  and \<^verbatim>\<open>Erase\<close> at the same place give \<open>1, 99, 2, 3\<close> and \<open>1, 2, 3\<close> again; the sized
  constructor gives five value-initialised elements.
\<close>

lemma scenarios_of_the_specification:
  "run int_env [Call_PushBack (Copy_arg 1), Call_PushBack (Copy_arg 2), Call_PushBack (Copy_arg 3)]
      Vector_default []
     = Some [vec_of [1] 0, vec_of [1, 2] 0, vec_of [1, 2, 3] 1]"
  "Insert int_env 1 99 (vec_of [1, 2, 3] 1) []
     = Return (1, vec_of [1, 99, 2, 3] 0,
         [Copied 99, Moved 3, MoveAssigned 2, MoveAssigned 99, Destroyed 99])"
  "Erase int_env 1 (vec_of [1, 99, 2, 3] 0) []
     = Return (1, vec_of [1, 2, 3] 1, [MoveAssigned 2, MoveAssigned 3, Destroyed 3])"
  "Vector_sized int_env 5 []
     = Return (vec_of [0, 0, 0, 0, 0] 0,
         [Allocated 5, DefaultConstructed 0, DefaultConstructed 0, DefaultConstructed 0,
          DefaultConstructed 0, DefaultConstructed 0])"
  by (simp_all add: model_defs)

text \<open>
  An rvalue argument that is an element of the vector is moved from before the old elements
  are transferred: with an element type whose moved-from state is 0,
  \<^verbatim>\<open>v.PushBack(std::move(v[0]))\<close> on the full vector \<open>1, 2\<close> gives \<open>0, 2, 1\<close>.
\<close>

lemma push_back_of_own_element:
  "PushBack (int_env\<lparr>moved_from := (\<lambda>x. 0)\<rparr>) (Move_arg (Element 0)) (vec_of [1, 2] 0) []
     = Return (vec_of [0, 2, 1] 1,
         [Allocated 4, Moved 1, Moved 0, Moved 2, Destroyed 0, Destroyed 0, Deallocated [Raw, Raw]])"
  by (simp add: model_defs)

section \<open>The claims\<close>

subsection \<open>C1: growth by doubling\<close>

lemma valid_arg_built: "valid_arg a (length xs) \<longleftrightarrow> built a xs \<noteq> None"
  by (auto simp: valid_arg_def built_def split: ctor_args.splits rvalue.splits)

lemma fits_mono: "fits E n \<Longrightarrow> m \<le> n \<Longrightarrow> fits E m"
proof -
  assume f: "fits E n" and le: "m \<le> n"
  from le have "m * sizeof_T E \<le> n * sizeof_T E" by (rule mult_le_mono1)
  moreover from f have "n * sizeof_T E < 2 ^ 64" unfolding fits_def by blast
  ultimately have "m * sizeof_T E < 2 ^ 64" by (rule le_less_trans)
  moreover from f have "0 < sizeof_T E" unfolding fits_def by blast
  ultimately show ?thesis unfolding fits_def by blast
qed

lemma vec_of_in_bounds [simp]: "in_bounds (vec_of xs k)"
  by (simp add: in_bounds_def)

lemma do_call_vec:
  assumes "do_call E c (vec_of xs k) tr = Some (v', tr')"
  shows "\<exists>ys x. length ys = length xs
           \<and> v' = vec_of (ys @ [x]) (if k = 0 then length xs - 1 else k - 1)"
proof -
  let ?ys = "after_construct E (call_args c) xs"
  have "\<exists>x. v' = vec_of (?ys @ [x]) (if k = 0 then length xs - 1 else k - 1)"
  proof (cases k)
    case 0
    show ?thesis
    proof (cases c)
      case (Call_PushBack a)
      with assms 0 have r: "PushBack E a (vec_of xs 0) tr = Return (v', tr')"
        by (auto simp: do_call_def split: outcome.splits)
      from PushBack_in_bounds [of "vec_of xs 0" E a tr v' tr'] r
      have "length xs < block_slots E (grown (length xs))" by simp
      then have f: "fits E (doubled_cap (length xs))" by (rule room_fits)
      from PushBack_full_vec [OF f, where a = a and tr = tr] r 0 Call_PushBack show ?thesis
        by (auto simp: call_args_def)
    next
      case (Call_EmplaceBack a)
      with assms 0 obtain i where r: "EmplaceBack E a (vec_of xs 0) tr = Return (i, v', tr')"
        by (auto simp: do_call_def split: outcome.splits)
      from EmplaceBack_in_bounds [of "vec_of xs 0" E a tr i v' tr'] r
      have "length xs < block_slots E (grown (length xs))" by simp
      then have f: "fits E (doubled_cap (length xs))" by (rule room_fits)
      from EmplaceBack_full_vec [OF f, where a = a and tr = tr] r 0 Call_EmplaceBack show ?thesis
        by (auto simp: call_args_def)
    qed
  next
    case (Suc j)
    show ?thesis
    proof (cases c)
      case (Call_PushBack a)
      with assms Suc PushBack_spare_vec [where E = E and a = a and xs = xs and j = j and tr = tr]
      show ?thesis
        by (auto simp: do_call_def call_args_def split: outcome.splits)
    next
      case (Call_EmplaceBack a)
      with assms Suc EmplaceBack_spare_vec [where E = E and a = a and xs = xs and j = j and tr = tr]
      show ?thesis
        by (auto simp: do_call_def call_args_def split: outcome.splits)
    qed
  qed
  then obtain x where "v' = vec_of (?ys @ [x]) (if k = 0 then length xs - 1 else k - 1)" ..
  moreover have "length ?ys = length xs" by simp
  ultimately show ?thesis by blast
qed

lemma do_call_total:
  assumes "nothrow_env E" and "valid_arg (call_args c) (length xs)"
    and "k = 0 \<longrightarrow> fits E (doubled_cap (length xs))"
  shows "\<exists>s. do_call E c (vec_of xs k) tr = Some s"
proof -
  from assms(2) obtain x where b: "built (call_args c) xs = Some x"
    using valid_arg_built [of "call_args c" xs] by auto
  show ?thesis
  proof (cases k)
    case 0
    with assms(3) have f: "fits E (doubled_cap (length xs))" by simp
    show ?thesis
    proof (cases c)
      case (Call_PushBack a)
      with PushBack_full_vec [OF f, where a = a and tr = tr] assms(1) b 0 show ?thesis
        by (auto simp: do_call_def call_args_def split: outcome.splits)
    next
      case (Call_EmplaceBack a)
      with EmplaceBack_full_vec [OF f, where a = a and tr = tr] assms(1) b 0 show ?thesis
        by (auto simp: do_call_def call_args_def split: outcome.splits)
    qed
  next
    case (Suc j)
    show ?thesis
    proof (cases c)
      case (Call_PushBack a)
      with PushBack_spare_vec [where E = E and a = a and xs = xs and j = j and tr = tr]
        assms(1) b Suc show ?thesis
        by (auto simp: do_call_def call_args_def split: outcome.splits)
    next
      case (Call_EmplaceBack a)
      with EmplaceBack_spare_vec [where E = E and a = a and xs = xs and j = j and tr = tr]
        assms(1) b Suc show ?thesis
        by (auto simp: do_call_def call_args_def split: outcome.splits)
    qed
  qed
qed

lemma capacity_step:
  "Capacity (vec_of (ys @ [x]) (if k = 0 then length xs - 1 else k - 1))
     = (if Capacity (vec_of xs k) \<le> Size (vec_of xs k) then max 1 (Capacity (vec_of xs k) * 2)
        else Capacity (vec_of xs k))"
  if "length ys = length xs"
  using that by (cases xs) (auto simp: max_def)

lemma run_doubling:
  assumes "run E cs (vec_of xs k) tr = Some vs"
  shows "length vs = length cs \<and> doubling (vec_of xs k) vs
     \<and> Size (last (vec_of xs k # vs)) = length xs + length cs
     \<and> list_all wf vs"
  using assms
proof (induction cs arbitrary: xs k tr vs)
  case Nil
  then show ?case by simp
next
  case (Cons c cs)
  from Cons.prems obtain v' tr' vs' where
    c: "do_call E c (vec_of xs k) tr = Some (v', tr')" and r: "run E cs v' tr' = Some vs'"
    and vs: "vs = v' # vs'"
    by (auto split: option.splits)
  from do_call_vec [OF c] obtain ys x where
    ly: "length ys = length xs"
    and v': "v' = vec_of (ys @ [x]) (if k = 0 then length xs - 1 else k - 1)"
    by blast
  from Cons.IH [OF r [unfolded v']] v' vs capacity_step [OF ly, of x k] ly show ?case
    by (simp del: vec_of_simps(3))
qed

lemma run_total:
  assumes "nothrow_env E" and "valid_calls (length xs) cs"
    and "fits E (2 * (length xs + length cs))"
  shows "\<exists>vs. run E cs (vec_of xs k) tr = Some vs"
  using assms(2,3)
proof (induction cs arbitrary: xs k tr)
  case Nil
  show ?case by simp
next
  case (Cons c cs)
  have "doubled_cap (length xs) \<le> 2 * (length xs + length (c # cs))"
    by (simp add: doubled_cap_def)
  with Cons.prems(2) have f: "fits E (doubled_cap (length xs))" by (rule fits_mono)
  from Cons.prems(1) have va: "valid_arg (call_args c) (length xs)" by simp
  from do_call_total [OF assms(1) va, of k tr] f obtain v' tr' where
    c: "do_call E c (vec_of xs k) tr = Some (v', tr')"
    by auto
  from do_call_vec [OF c] obtain ys x where
    ly: "length ys = length xs"
    and v': "v' = vec_of (ys @ [x]) (if k = 0 then length xs - 1 else k - 1)"
    by blast
  have "valid_calls (length (ys @ [x])) cs" using Cons.prems(1) ly by simp
  moreover have "fits E (2 * (length (ys @ [x]) + length cs))" using Cons.prems(2) ly by simp
  ultimately obtain vs where "run E cs v' tr' = Some vs"
    using Cons.IH [of "ys @ [x]"] unfolding v' by blast
  with c show ?case by simp
qed

text \<open>
  C1. Take any sequence of \<^verbatim>\<open>PushBack\<close> and \<^verbatim>\<open>EmplaceBack\<close> calls on a
  default-constructed vector. If all of them return, there is one vector per call, the
  last one has as many elements as there were calls, and from each vector to the next the
  length grows by one and the capacity follows the doubling policy (\<open>max 1 (2 * c)\<close> where
  the call had to grow, unchanged where it had not); each of these vectors is well formed,
  so its elements are all alive. And all of them do return when
  neither the allocator nor the element type throws, every argument can be built, and
  twice as many objects as there are calls take fewer than \<open>2 ^ 64\<close> bytes (no run on a
  machine with 64-bit addresses is longer).
\<close>

theorem pushes_grow_by_doubling:
  "(run E cs Vector_default tr = Some vs \<longrightarrow>
      length vs = length cs \<and> Size (last (Vector_default # vs)) = length cs
      \<and> doubling Vector_default vs \<and> list_all wf vs)
   \<and> (nothrow_env E \<and> valid_calls 0 cs \<and> fits E (2 * length cs) \<longrightarrow>
        (\<exists>ws. run E cs Vector_default tr = Some ws))"
  using run_doubling [of E cs "[]" 0 tr vs] run_total [of E "[]" cs 0 tr]
  by (simp add: Vector_default_vec)

theorem pushes_grow_by_doubling_witness:
  "nothrow_env int_env
   \<and> valid_calls 0 [Call_PushBack (Copy_arg 1), Call_EmplaceBack (Other_args (Some 2)),
        Call_PushBack (Move_arg (Object 3)), Call_PushBack (Move_arg (Element 0)),
        Call_EmplaceBack (Copy_arg (5 :: int))]
   \<and> fits int_env 10
   \<and> run int_env [Call_PushBack (Copy_arg 1), Call_EmplaceBack (Other_args (Some 2)),
        Call_PushBack (Move_arg (Object 3)), Call_PushBack (Move_arg (Element 0)),
        Call_EmplaceBack (Copy_arg 5)] Vector_default []
     = Some [vec_of [1] 0, vec_of [1, 2] 0, vec_of [1, 2, 3] 1, vec_of [1, 2, 3, 1] 0,
             vec_of [1, 2, 3, 1, 5] 3]
   \<and> Size (last [Vector_default, vec_of [1] 0, vec_of [1, 2] 0, vec_of [1, 2, 3] 1,
        vec_of [1, 2, 3, 1] 0, vec_of [1, 2, 3, 1, 5 :: int] 3]) = 5
   \<and> doubling Vector_default [vec_of [1] 0, vec_of [1, 2] 0, vec_of [1, 2, 3] 1,
        vec_of [1, 2, 3, 1] 0, vec_of [1, 2, 3, 1, 5 :: int] 3]
   \<and> map Capacity [vec_of [1] 0, vec_of [1, 2] 0, vec_of [1, 2, 3] 1, vec_of [1, 2, 3, 1] 0,
        vec_of [1, 2, 3, 1, 5 :: int] 3] = [1, 2, 4, 4, 8]"
proof -
  let ?cs = "[Call_PushBack (Copy_arg 1), Call_EmplaceBack (Other_args (Some 2)),
        Call_PushBack (Move_arg (Object 3)), Call_PushBack (Move_arg (Element 0)),
        Call_EmplaceBack (Copy_arg (5 :: int))]"
  let ?vs = "[vec_of [1] 0, vec_of [1, 2] 0, vec_of [1, 2, 3] 1, vec_of [1, 2, 3, 1] 0,
             vec_of [1, 2, 3, 1, 5 :: int] 3]"
  have n: "nothrow_env int_env" by (simp add: nothrow_env_def int_env_def)
  have v: "valid_calls 0 ?cs" by (simp add: valid_arg_def call_args_def)
  have f: "fits int_env 10" by (simp add: fits_def int_env_def)
  have r: "run int_env ?cs Vector_default [] = Some ?vs"
    by (simp add: model_defs)
  from pushes_grow_by_doubling [of int_env ?cs "[]" ?vs] n v f r show ?thesis
    by (simp add: Vector_default_vec)
qed

subsection \<open>C2: a failure while growing\<close>

lemma construct_arg_moved:
  assumes "construct E a (buffer v) tr = Return (x, m, ev)"
  shows "with_buffer v m = v \<or> with_buffer v m = arg_moved E a v"
  using assms
  by (auto simp: construct_def arg_moved_def
      split: ctor_args.splits rvalue.splits option.splits if_splits)

lemma copy_construct_loop_throw:
  "copy_construct_loop E (S @ map Live xs @ S2) (length S) (length xs) 0 (length ds)
     (map Live ds @ replicate r Raw) tr = Throw e (m', tr') \<Longrightarrow>
   m' = replicate (length ds + r) Raw
   \<and> (\<exists>j<length xs. tr' = tr @ map Copied (take j xs) @ map Destroyed (ds @ take j xs))"
proof (induction xs arbitrary: S ds r tr)
  case Nil
  then show ?case by simp
next
  case (Cons x xs)
  have rd: "object_at (S @ map Live (x # xs) @ S2) (length S) = Some x"
    using object_at_app [of S x "map Live xs @ S2"] by simp
  have rb: "destroy_n 0 (length ds) (map Live ds @ replicate r Raw) tr
       = Some (replicate (length ds) Raw @ replicate r Raw, tr @ map Destroyed ds)"
    using destroy_n_app [of "[]" ds "replicate r Raw" tr] by simp
  show ?case
  proof (cases "copy_throws E tr x")
    case True
    with Cons.prems rd rb have "m' = replicate (length ds + r) Raw" and "tr' = tr @ map Destroyed ds"
      by (simp_all add: replicate_add)
    moreover have "\<exists>j<length (x # xs). tr @ map Destroyed ds
        = tr @ map Copied (take j (x # xs)) @ map Destroyed (ds @ take j (x # xs))"
      by (rule exI [of _ 0]) simp
    ultimately show ?thesis by simp
  next
    case False
    show ?thesis
    proof (cases r)
      case 0
      with Cons.prems rd False show ?thesis by (simp add: construct_at_def)
    next
      case (Suc r')
      have step: "construct_at (map Live ds @ replicate (Suc r') Raw) (length ds) x
          = Some (map Live (ds @ [x]) @ replicate r' Raw)"
        using construct_at_app [of "map Live ds" "replicate r' Raw" x] by simp
      from Cons.prems rd False Suc step have
        "copy_construct_loop E ((S @ [Live x]) @ map Live xs @ S2) (length (S @ [Live x])) (length xs) 0
           (length (ds @ [x])) (map Live (ds @ [x]) @ replicate r' Raw) (tr @ [Copied x])
         = Throw e (m', tr')"
        by simp
      from Cons.IH [OF this] obtain j where
        m': "m' = replicate (length (ds @ [x]) + r') Raw" and j: "j < length xs"
        and tr': "tr' = (tr @ [Copied x]) @ map Copied (take j xs) @ map Destroyed ((ds @ [x]) @ take j xs)"
        by blast
      have "tr' = tr @ map Copied (take (Suc j) (x # xs)) @ map Destroyed (ds @ take (Suc j) (x # xs))"
        using tr' by simp
      moreover have "Suc j < length (x # xs)" using j by simp
      ultimately have "\<exists>i<length (x # xs). tr' = tr @ map Copied (take i (x # xs))
          @ map Destroyed (ds @ take i (x # xs))"
        by blast
      with m' Suc show ?thesis by simp
    qed
  qed
qed

lemma Reserve_throw_trace:
  assumes cp: "is_copy_constructible E" "\<not> is_nothrow_move_constructible E"
    and t: "Reserve E n (vec_of xs k) tr = Throw element_exn (v', tr')"
  shows "\<exists>j<length xs. tr' = tr @ Allocated (block_slots E n) # map Copied (take j xs)
           @ map Destroyed (take j xs) @ [Deallocated (replicate (block_slots E n) Raw)]"
proof -
  let ?m = "block_slots E n"
  from t have gt: "\<not> n \<le> length xs + k"
    by (auto simp: Reserve_def)
  then have n0: "n \<noteq> 0" by simp
  from t gt obtain nd tr1 where ctor: "RawMemory_ctor E n tr = Return (nd, tr1)"
    by (auto simp: Reserve_def split: outcome.splits dest: RawMemory_ctor_throw)
  have nd: "nd = \<lparr>rm_buffer = Block (replicate ?m Raw), rm_capacity = n\<rparr>"
    using RawMemory_ctor_return [OF ctor] n0 by (cases nd) simp
  have tr1: "tr1 = tr @ [Allocated ?m]"
    using RawMemory_ctor_return [OF ctor] n0 by simp
  let ?lp = "copy_construct_loop E (map Live xs @ replicate k Raw) 0 (length xs) 0 0
      (replicate ?m Raw) tr1"
  have rel: "relocate_n E (map Live xs @ replicate k Raw) 0 (length xs) (replicate ?m Raw) 0 tr1
      = (case ?lp of
           Undefined \<Rightarrow> Undefined
         | Throw e (m', t') \<Rightarrow> Throw e (map Live xs @ replicate k Raw, m', t')
         | Return (m', t') \<Rightarrow> Return (map Live xs @ replicate k Raw, m', t'))"
    using cp by (simp add: relocate_n_def uninitialized_copy_n_def)
  from t gt ctor nd obtain e1 nb tr2 where
    lp: "?lp = Throw e1 (nb, tr2)" and tr': "tr' = tr2 @ [Deallocated nb]"
    by (auto simp: Reserve_def rm_slots_def rm_store_def slots_def rel store_def unwind_def
        RawMemory_dtor_def Deallocate_def operator_delete_def
        split: outcome.splits option.splits)
  from copy_construct_loop_throw [where S = "[]" and ds = "[]" and xs = xs and ?S2.0 = "replicate k Raw"
      and r = ?m and E = E and tr = tr1 and e = e1 and m' = nb and tr' = tr2] lp
  obtain j where "nb = replicate ?m Raw" and "j < length xs"
    and "tr2 = tr1 @ map Copied (take j xs) @ map Destroyed (take j xs)"
    by auto
  with tr' tr1 show ?thesis by auto
qed

text \<open>
  C2, as the code has it. Take an element type that is transferred by copying (it is copy
  constructible and its move constructor is not \<^verbatim>\<open>noexcept\<close>) and any vector. When
  \<^verbatim>\<open>Reserve\<close> throws, the vector is as it was: length, capacity and every slot. When
  \<^verbatim>\<open>PushBack\<close>, \<^verbatim>\<open>EmplaceBack\<close> or \<^verbatim>\<open>Emplace\<close> on a full vector throws, the vector
  is as it was, or as it was except that the element which the caller passed as an rvalue
  has been moved from. When \<^verbatim>\<open>Reserve\<close> on a well-formed vector throws because a copy
  failed, what happened is the allocation of the new block, some copies into it, the
  destruction of each of these copies, and the release of the block with nothing alive in
  it.
\<close>

theorem growth_failure_on_copy_path:
  assumes "is_copy_constructible E" and "\<not> is_nothrow_move_constructible E"
  shows "(Reserve E n v tr = Throw e (v', tr') \<longrightarrow> v' = v)
     \<and> (PushBack E a v tr = Throw e (v', tr') \<longrightarrow> v' = v \<or> v' = arg_moved E a v)
     \<and> (EmplaceBack E a v tr = Throw e (v', tr') \<longrightarrow> v' = v \<or> v' = arg_moved E a v)
     \<and> (Capacity v \<le> Size v \<longrightarrow> Emplace E pos a v tr = Throw e (v', tr') \<longrightarrow>
          v' = v \<or> v' = arg_moved E a v)
     \<and> (wf v \<longrightarrow> Reserve E n v tr = Throw element_exn (v', tr') \<longrightarrow>
          (\<exists>xs j. contents v = map Some xs \<and> j < length xs
             \<and> tr' = tr @ Allocated (block_slots E n) # map Copied (take j xs)
                   @ map Destroyed (take j xs) @ [Deallocated (replicate (block_slots E n) Raw)]))"
proof -
  note cp = relocate_n_copy_path [OF assms]
  have reserve: "Reserve E n v tr = Throw e (v', tr') \<longrightarrow> v' = v"
    by (auto simp: Reserve_def with_buffer_buffer
        split: if_splits outcome.splits option.splits dest!: unwind_cases(1) cp(2))
  have push: "PushBack E a v tr = Throw e (v', tr') \<longrightarrow> v' = v \<or> v' = arg_moved E a v"
  proof
    assume t: "PushBack E a v tr = Throw e (v', tr')"
    show "v' = v \<or> v' = arg_moved E a v"
      using t
      apply (auto simp: PushBack_def unwind_cases(2) with_buffer_buffer
          split: if_splits outcome.splits option.splits
          dest!: unwind_cases(1) cp(2))
      apply (frule construct_arg_moved, simp)+
      done
  qed
  have emplace_back: "EmplaceBack E a v tr = Throw e (v', tr') \<longrightarrow> v' = v \<or> v' = arg_moved E a v"
  proof
    assume t: "EmplaceBack E a v tr = Throw e (v', tr')"
    show "v' = v \<or> v' = arg_moved E a v"
      using t
      apply (auto simp: EmplaceBack_def unwind_cases(2) with_buffer_buffer
          split: if_splits outcome.splits option.splits
          dest!: unwind_cases(1) cp(2))
      apply (frule construct_arg_moved, simp)+
      done
  qed
  have emplace: "Capacity v \<le> Size v \<longrightarrow> Emplace E pos a v tr = Throw e (v', tr') \<longrightarrow>
          v' = v \<or> v' = arg_moved E a v"
  proof (intro impI)
    assume full: "Capacity v \<le> Size v" and "Emplace E pos a v tr = Throw e (v', tr')"
    then have t: "Emplace_grow E (to_int pos) a v tr = Throw e (v', tr')"
      by (auto simp: Emplace_def Let_def Size_def split: outcome.splits if_splits)
    show "v' = v \<or> v' = arg_moved E a v"
      using t
      apply (auto simp: Emplace_grow_def unwind_cases(2) with_buffer_buffer
          split: if_splits outcome.splits option.splits
          dest!: unwind_cases(1) cp(1) cp(2))
      apply (frule construct_arg_moved, simp)+
      done
  qed
  have reserve_tr: "wf v \<longrightarrow> Reserve E n v tr = Throw element_exn (v', tr') \<longrightarrow>
          (\<exists>xs j. contents v = map Some xs \<and> j < length xs
             \<and> tr' = tr @ Allocated (block_slots E n) # map Copied (take j xs)
                   @ map Destroyed (take j xs) @ [Deallocated (replicate (block_slots E n) Raw)])"
  proof (intro impI)
    assume "wf v" and t: "Reserve E n v tr = Throw element_exn (v', tr')"
    then obtain xs k where v: "v = vec_of xs k" using wf_imp_vec_of by blast
    from Reserve_throw_trace [OF assms t [unfolded v]] show "\<exists>xs j. contents v = map Some xs \<and> j < length xs
             \<and> tr' = tr @ Allocated (block_slots E n) # map Copied (take j xs)
                   @ map Destroyed (take j xs) @ [Deallocated (replicate (block_slots E n) Raw)]"
      unfolding v by auto
  qed
  from reserve push emplace_back emplace reserve_tr show ?thesis by blast
qed

theorem growth_failure_on_copy_path_witness:
  "wf (vec_of [1, 2 :: int] 0) \<and> is_copy_constructible throwing_copy_env
   \<and> \<not> is_nothrow_move_constructible throwing_copy_env
   \<and> Capacity (vec_of [1, 2 :: int] 0) \<le> Size (vec_of [1, 2 :: int] 0)
   \<and> block_slots throwing_copy_env 4 = 4
   \<and> contents (vec_of [1, 2 :: int] 0) = map Some [1, 2]
   \<and> Reserve throwing_copy_env 4 (vec_of [1, 2] 0) []
       = Throw element_exn (vec_of [1, 2] 0,
           [Allocated 4, Copied 1, Destroyed 1, Deallocated [Raw, Raw, Raw, Raw]])
   \<and> PushBack throwing_copy_env (Copy_arg 9) (vec_of [1, 2] 0) []
       = Throw element_exn (vec_of [1, 2] 0,
           [Allocated 4, Copied 9, Copied 1, Destroyed 1, Deallocated [Raw, Raw, Live 9, Raw]])
   \<and> arg_moved throwing_copy_env (Move_arg (Element 0)) (vec_of [1, 2] 0) = vec_of [0, 2] 0
   \<and> PushBack throwing_copy_env (Move_arg (Element 0)) (vec_of [1, 2] 0) []
       = Throw element_exn (vec_of [0, 2] 0,
           [Allocated 4, Moved 1, Copied 0, Destroyed 0, Deallocated [Raw, Raw, Live 1, Raw]])
   \<and> EmplaceBack throwing_copy_env (Move_arg (Element 0)) (vec_of [1, 2] 0) []
       = Throw element_exn (vec_of [0, 2] 0,
           [Allocated 4, Moved 1, Copied 0, Destroyed 0, Deallocated [Raw, Raw, Live 1, Raw]])
   \<and> Emplace throwing_copy_env 1 (Move_arg (Element 0)) (vec_of [1, 2] 0) []
       = Throw element_exn (vec_of [0, 2] 0,
           [Allocated 4, Moved 1, Copied 0, Deallocated [Live 0, Live 1, Raw, Raw]])
   \<and> Emplace throwing_copy_env 1 (Copy_arg 9) (vec_of [1, 2] 0) []
       = Throw element_exn (vec_of [1, 2] 0,
           [Allocated 4, Copied 9, Copied 1, Deallocated [Live 1, Live 9, Raw, Raw]])
   \<and> (\<exists>xs j. contents (vec_of [1, 2 :: int] 0) = map Some xs \<and> j < length xs
         \<and> [Allocated 4, Copied 1, Destroyed 1, Deallocated [Raw, Raw, Raw, Raw]]
           = [] @ Allocated (block_slots throwing_copy_env 4) # map Copied (take j xs)
               @ map Destroyed (take j xs)
               @ [Deallocated (replicate (block_slots throwing_copy_env 4) Raw)])"
proof -
  let ?v = "vec_of [1, 2 :: int] 0"
  let ?E = throwing_copy_env
  have w: "wf ?v" by simp
  have c: "is_copy_constructible ?E"
    and m: "\<not> is_nothrow_move_constructible ?E"
    by (simp_all add: throwing_copy_env_def int_env_def)
  have full: "Capacity ?v \<le> Size ?v" by (simp add: Size_def)
  have b: "block_slots ?E 4 = 4"
    by (simp add: block_slots_def size_t_def throwing_copy_env_def int_env_def)
  have ct: "contents ?v = map Some [1, 2]" by (simp add: contents_vec_of)
  have r: "Reserve ?E 4 ?v []
       = Throw element_exn (?v, [Allocated 4, Copied 1, Destroyed 1, Deallocated [Raw, Raw, Raw, Raw]])"
    by (simp add: model_defs)
  have p: "PushBack ?E (Copy_arg 9) ?v []
       = Throw element_exn (?v,
           [Allocated 4, Copied 9, Copied 1, Destroyed 1, Deallocated [Raw, Raw, Live 9, Raw]])"
    by (simp add: model_defs)
  have am: "arg_moved ?E (Move_arg (Element 0)) ?v = vec_of [0, 2] 0"
    by (simp add: model_defs arg_moved_def)
  have pm: "PushBack ?E (Move_arg (Element 0)) ?v []
       = Throw element_exn (vec_of [0, 2] 0,
           [Allocated 4, Moved 1, Copied 0, Destroyed 0, Deallocated [Raw, Raw, Live 1, Raw]])"
    by (simp add: model_defs)
  have ebm: "EmplaceBack ?E (Move_arg (Element 0)) ?v []
       = Throw element_exn (vec_of [0, 2] 0,
           [Allocated 4, Moved 1, Copied 0, Destroyed 0, Deallocated [Raw, Raw, Live 1, Raw]])"
    by (simp add: model_defs)
  have em: "Emplace ?E 1 (Move_arg (Element 0)) ?v []
       = Throw element_exn (vec_of [0, 2] 0,
           [Allocated 4, Moved 1, Copied 0, Deallocated [Live 0, Live 1, Raw, Raw]])"
    by (simp add: model_defs)
  have e: "Emplace ?E 1 (Copy_arg 9) ?v []
       = Throw element_exn (?v, [Allocated 4, Copied 9, Copied 1, Deallocated [Live 1, Live 9, Raw, Raw]])"
    by (simp add: model_defs)
  note t1 = growth_failure_on_copy_path [OF c m, where n = 4 and v = ?v and tr = "[]"
      and e = element_exn and v' = ?v
      and tr' = "[Allocated 4, Copied 1, Destroyed 1, Deallocated [Raw, Raw, Raw, Raw]]"
      and a = "Copy_arg 9" and pos = 1]
  note t2 = growth_failure_on_copy_path [OF c m, where n = 4 and v = ?v and tr = "[]"
      and e = element_exn and v' = "vec_of [0, 2] 0"
      and tr' = "[Allocated 4, Moved 1, Copied 0, Destroyed 0, Deallocated [Raw, Raw, Live 1, Raw]]"
      and a = "Move_arg (Element 0)" and pos = 1]
  note t3 = growth_failure_on_copy_path [OF c m, where n = 4 and v = ?v and tr = "[]"
      and e = element_exn and v' = "vec_of [0, 2] 0"
      and tr' = "[Allocated 4, Moved 1, Copied 0, Deallocated [Live 0, Live 1, Raw, Raw]]"
      and a = "Move_arg (Element 0)" and pos = 1]
  from t1 w r have tr: "\<exists>xs j. contents ?v = map Some xs \<and> j < length xs
         \<and> [Allocated 4, Copied 1, Destroyed 1, Deallocated [Raw, Raw, Raw, Raw]]
           = [] @ Allocated (block_slots ?E 4) # map Copied (take j xs)
               @ map Destroyed (take j xs) @ [Deallocated (replicate (block_slots ?E 4) Raw)]"
    by blast
  from t2 pm ebm have "vec_of [0, 2] 0 = ?v \<or> vec_of [0, 2] 0 = arg_moved ?E (Move_arg (Element 0)) ?v"
    by blast
  moreover from t3 full em
  have "vec_of [0, 2] 0 = ?v \<or> vec_of [0, 2] 0 = arg_moved ?E (Move_arg (Element 0)) ?v"
    by blast
  ultimately show ?thesis
    using w c m full b ct r p am pm ebm em e tr by blast
qed

text \<open>
  C2 as stated fails in two ways. An element type that cannot be copied is moved even if its
  move constructor may throw: when the second move fails, the first element of the vector
  has been moved from and stays so. And \<^verbatim>\<open>PushBack\<close> builds the new element in the new
  block before it transfers the old ones: when a copy fails, the block is released with
  the new element still alive in it, and no destructor ever runs for that element.
\<close>

theorem growth_failure_not_rolled_back:
  "Reserve move_only_env 4 (vec_of [1, 2, 3] 0) []
     = Throw element_exn (vec_of [0, 2, 3] 0,
         [Allocated 4, Moved 1, Destroyed 1, Deallocated [Raw, Raw, Raw, Raw]])
   \<and> contents (vec_of [0, 2, 3 :: int] 0) \<noteq> contents (vec_of [1, 2, 3 :: int] 0)
   \<and> PushBack throwing_copy_env (Copy_arg 9) (vec_of [1, 2] 0) []
       = Throw element_exn (vec_of [1, 2] 0,
           [Allocated 4, Copied 9, Copied 1, Destroyed 1, Deallocated [Raw, Raw, Live 9, Raw]])
   \<and> Live 9 \<in> set [Raw, Raw, Live (9 :: int), Raw]
   \<and> Destroyed 9 \<notin> set [Allocated 4, Copied 9, Copied 1, Destroyed (1 :: int),
                           Deallocated [Raw, Raw, Live 9, Raw]]"
  by (simp add: model_defs)

subsection \<open>C3: a failing constructor in the branch without growth\<close>

text \<open>
  C3 does not hold. The handler of the \<^verbatim>\<open>try\<close> block in \<^verbatim>\<open>Emplace\<close> passes
  \<^verbatim>\<open>end()\<close> to \<^verbatim>\<open>operator delete\<close>. On a vector with elements \<open>1, 2\<close> and capacity 4,
  an \<^verbatim>\<open>Emplace\<close> at position 1 whose constructor throws has changed nothing when the
  handler is entered, and then releases a pointer into the middle of the block: the
  behaviour is undefined.
\<close>

theorem Emplace_temporary_throws_undefined:
  "Emplace int_env 1 (Other_args None) (vec_of [1, 2] 2) [] = Undefined"
  by (simp add: model_defs)

subsection \<open>C4: moves\<close>

text \<open>
  C4, as the code has it. Neither the move constructor nor move assignment performs an
  operation on an element: the history is unchanged. The move constructor hands the block
  and the length of the source to the new vector and leaves the source with no block and
  length zero. Move assignment exchanges block, capacity and length of the two vectors:
  afterwards the source has the former length of the target.
\<close>

theorem move_transfers_without_element_operations:
  "(case Vector_move_ctor other tr of
      (v', other', tr') \<Rightarrow>
        tr' = tr \<and> buffer v' = buffer other \<and> vec_size v' = vec_size other
        \<and> Capacity v' = Capacity other
        \<and> vec_size other' = 0 \<and> Capacity other' = 0 \<and> buffer other' = [])
   \<and> (case move_assign v rhs tr of
        (v', rhs', tr') \<Rightarrow>
          tr' = tr \<and> buffer v' = buffer rhs \<and> vec_size v' = vec_size rhs
          \<and> Capacity v' = Capacity rhs
          \<and> buffer rhs' = buffer v \<and> vec_size rhs' = vec_size v \<and> Capacity rhs' = Capacity v)"
  by (simp add: Vector_move_ctor_def RawMemory_move_ctor_def move_assign_def Swap_def
      RawMemory_Swap_def buffer_def Capacity_def RawMemory_Capacity_def rm_slots_def slots_def)

text \<open>
  C4 as stated fails for move assignment: moved into a vector of length 1, a source of
  length 2 is left with length 1, not 0.
\<close>

theorem move_assign_source_not_empty:
  "vec_size (fst (snd (move_assign (vec_of [7] 0) (vec_of [1, 2] 0) ([] :: int event list)))) = 1
   \<and> vec_size (fst (snd (move_assign (vec_of [7] 0) (vec_of [1, 2] 0) ([] :: int event list)))) \<noteq> 0"
  by (simp add: move_assign_def Swap_def RawMemory_Swap_def)

subsection \<open>C5: Insert followed by Erase\<close>

lemma to_int_small: "pos < 2 ^ 31 \<Longrightarrow> to_int pos = int pos"
  unfolding to_int_def by (rule signed_take_bit_int_eq_self) simp_all

lemma Emplace_full_fits:
  assumes "Emplace E pos a (vec_of xs 0) tr = Return (it, v', tr')"
  shows "fits E (doubled_cap (length xs))"
proof -
  from assms obtain v1 where "Emplace_grow E (to_int pos) a (vec_of xs 0) tr = Return (v1, tr')"
    by (auto simp: Emplace_def Let_def split: outcome.splits if_splits)
  from Emplace_grow_in_bounds(1) [OF vec_of_in_bounds this]
  have "length xs < block_slots E (grown (length xs))" by simp
  then show ?thesis by (rule room_fits)
qed

lemma Emplace_vec_bounded:
  assumes "pos \<le> length xs" and "length xs < 2 ^ 31"
    and "Emplace E pos a (vec_of xs k) tr = Return (it, v', tr')"
  shows "it = pos
     \<and> (\<exists>x j. built a xs = Some x
          \<and> v' = vec_of (take pos (after_construct E a xs) @ x # drop pos (after_construct E a xs)) j)"
proof -
  have p: "to_int pos = int pos" using assms(1,2) by (simp add: to_int_small)
  show ?thesis
  proof (cases k)
    case 0
    from Emplace_full_return [OF assms(3) [unfolded 0] Emplace_full_fits [OF assms(3) [unfolded 0]]] p
    show ?thesis by auto
  next
    case (Suc j)
    from Emplace_spare_return [OF assms(3) [unfolded Suc]] p show ?thesis
      by (cases "pos = length xs") auto
  qed
qed

text \<open>
  Where the offset of the position fits into \<^verbatim>\<open>int\<close>, insertion followed by erasure at
  the same position gives back the sequence: for a well-formed vector with fewer than
  \<open>2 ^ 31\<close> elements, a position in \<open>[begin, end]\<close> and a value that is not an element of
  the vector passed as an rvalue, if both calls return.
\<close>

lemma Emplace_then_Erase:
  assumes "wf v" and "pos \<le> Size v" and "Size v < 2 ^ 31"
    and "a = Copy_arg x \<or> a = Move_arg (Object x)"
    and "Emplace E pos a v tr = Return (it, v1, tr1)"
    and "Erase E pos v1 tr1 = Return (it2, v2, tr2)"
  shows "contents v2 = contents v \<and> Size v2 = Size v \<and> it2 = pos"
proof -
  from assms(1) obtain xs k where v: "v = vec_of xs k" using wf_imp_vec_of by blast
  from assms(2,3) have le: "pos \<le> length xs" and lt: "length xs < 2 ^ 31" by (simp_all add: v)
  from assms(4) have ac: "after_construct E a xs = xs"
    by (auto simp: after_construct_def)
  from Emplace_vec_bounded [OF le lt assms(5) [unfolded v]] ac obtain y j where
    v1: "v1 = vec_of (take pos xs @ y # drop pos xs) j"
    by auto
  have p: "to_int pos = int pos" using le lt by (simp add: to_int_small)
  from Erase_return [OF assms(6) [unfolded v1]] p
  have "it2 = pos" and "v2 = vec_of (take pos (take pos xs @ y # drop pos xs)
        @ drop (Suc pos) (take pos xs @ y # drop pos xs)) (Suc j)"
    by simp_all
  moreover have "take pos (take pos xs @ y # drop pos xs) = take pos xs"
    using le by simp
  moreover have "drop (Suc pos) (take pos xs @ y # drop pos xs) = drop pos xs"
    using le by (simp add: min_def)
  ultimately show ?thesis unfolding v by simp
qed

lemma Insert_then_Erase:
  assumes "wf v" and "pos \<le> Size v" and "Size v < 2 ^ 31"
    and "Insert E pos x v tr = Return (it, v1, tr1)
         \<or> Insert_rvalue E pos (Object x) v tr = Return (it, v1, tr1)"
    and "Erase E pos v1 tr1 = Return (it2, v2, tr2)"
  shows "contents v2 = contents v \<and> Size v2 = Size v"
proof -
  from assms(4) obtain a where a: "a = Copy_arg x \<or> a = Move_arg (Object x)"
    and e: "Emplace E pos a v tr = Return (it, v1, tr1)"
    unfolding Insert_def Insert_rvalue_def by blast
  from Emplace_then_Erase [OF assms(1,2,3) a e assms(5)] show ?thesis by simp
qed

text \<open>
  C5 does not hold for every vector. \<^verbatim>\<open>Emplace\<close> and \<^verbatim>\<open>Erase\<close> keep the offset in an
  \<^verbatim>\<open>int\<close>. On a vector of \<open>2 ^ 31\<close> elements with one spare slot, \<^verbatim>\<open>Insert\<close> at
  \<^verbatim>\<open>end()\<close> computes the offset \<open>- 2 ^ 31\<close> and returns \<^verbatim>\<open>begin() + position\<close>, a
  pointer before the block; \<^verbatim>\<open>Erase\<close> at the same position then moves from there.
\<close>

theorem Insert_at_2_31_is_undefined:
  "Insert int_env (2 ^ 31) 7 (vec_of (replicate (2 ^ 31) 0) 1) [] = Undefined
   \<and> Erase int_env (2 ^ 31) (vec_of (replicate (2 ^ 31) 0 @ [7]) 0) [] = Undefined"
proof -
  let ?xs = "replicate (2 ^ 31) (0 :: int)"
  have "\<not> copy_throws int_env [] 7" by (simp add: int_env_def)
  from Emplace_try_end_copy [OF this, where xs = ?xs and j = 0 and p = "- (2 ^ 31)"]
  have t: "Emplace_try int_env (2 ^ 31) (- (2 ^ 31)) (Copy_arg 7) (vec_of ?xs (Suc 0)) []
      = Return (map Live (?xs @ [7]) @ replicate 0 Raw, [] @ [Copied 7])"
    by simp
  have "Insert int_env (2 ^ 31) 7 (vec_of ?xs 1) [] = Undefined"
    using t by (simp add: Insert_def Emplace_def Let_def to_int_def)
  moreover have "Erase int_env (2 ^ 31) (vec_of (?xs @ [7]) 0) [] = Undefined"
    by (simp add: Erase_def Let_def to_int_def)
  ultimately show ?thesis by simp
qed

subsection \<open>C6: Resize\<close>

lemma Resize_cases_vec:
  assumes "fits E n"
  shows "case Resize E n (vec_of xs k) tr of
     Return (v', tr') \<Rightarrow>
       (n < length xs \<longrightarrow>
          v' = vec_of (take n xs) (length xs - n + k) \<and> tr' = tr @ map Destroyed (drop n xs))
       \<and> (length xs \<le> n \<longrightarrow>
            (\<exists>j. v' = vec_of (xs @ replicate (n - length xs) (default_value E)) j))
       \<and> (length xs \<le> n \<longrightarrow> n \<le> length xs + k \<longrightarrow>
            v' = vec_of (xs @ replicate (n - length xs) (default_value E)) (length xs + k - n)
            \<and> tr' = tr @ replicate (n - length xs) (DefaultConstructed (default_value E)))
   | Throw e (v', tr') \<Rightarrow> (\<exists>ys j. length ys = length xs \<and> v' = vec_of ys j) \<and> \<not> nothrow_env E
   | Undefined \<Rightarrow> False"
proof (cases "n < length xs")
  case True
  then have ne: "drop n xs \<noteq> []" and len: "length (take n xs) = n" by simp_all
  have "Resize E (length (take n xs)) (vec_of (take n xs @ drop n xs) k) tr
      = Return (vec_of (take n xs) (length (drop n xs) + k), tr @ map Destroyed (drop n xs))"
    using ne by (rule Resize_shrink_vec)
  with True len show ?thesis by simp
next
  case False
  define d where "d = n - length xs"
  have n: "n = length xs + d" using False by (simp add: d_def)
  show ?thesis
  proof (cases "d \<le> k")
    case True
    then obtain j where k: "k = d + j" using le_Suc_ex by blast
    from Resize_grow_within_vec [where E = E and xs = xs and d = d and j = j and tr = tr]
    show ?thesis unfolding n k by (auto split: outcome.splits)
  next
    case gt: False
    then have "k < d" by simp
    from Resize_grow_realloc_vec [OF this assms [unfolded n], where tr = tr] gt
    show ?thesis unfolding n by (auto split: outcome.splits)
  qed
qed

text \<open>
  Where the block that \<^verbatim>\<open>Resize(n)\<close> asks for has a size in bytes that \<^verbatim>\<open>size_t\<close> can
  hold, the call does what C6 says, on every well-formed vector. It is defined. If no
  operation of the element type and no allocation throws, it returns. If it returns, the
  length is \<open>n\<close>. With \<open>n\<close> below the length, the first \<open>n\<close> elements are as before, the
  capacity is unchanged, and what happened is exactly the destruction of the trailing
  elements, one destructor call for each. With \<open>n\<close> at or above the length, the old
  elements are as before and are followed by \<open>n - length\<close> value-initialised ones; and
  if \<open>n\<close> does not exceed the capacity, the capacity is unchanged and what happened is
  exactly the construction of these elements.
\<close>

lemma Resize_within_address_space:
  assumes "wf v" and "fits E n"
  shows "Resize E n v tr \<noteq> Undefined
     \<and> (nothrow_env E \<longrightarrow> (\<exists>v' tr'. Resize E n v tr = Return (v', tr')))
     \<and> (Resize E n v tr = Return (v', tr') \<longrightarrow>
          Size v' = n
          \<and> (n < Size v \<longrightarrow>
               contents v' = take n (contents v) \<and> Capacity v' = Capacity v
               \<and> (\<exists>xs. contents v = map Some xs \<and> tr' = tr @ map Destroyed (drop n xs)))
          \<and> (Size v \<le> n \<longrightarrow>
               contents v' = contents v @ replicate (n - Size v) (Some (default_value E)))
          \<and> (Size v \<le> n \<longrightarrow> n \<le> Capacity v \<longrightarrow>
               Capacity v' = Capacity v
               \<and> tr' = tr @ replicate (n - Size v) (DefaultConstructed (default_value E))))"
proof -
  from assms(1) obtain xs k where v: "v = vec_of xs k" using wf_imp_vec_of by blast
  note r = Resize_cases_vec [OF assms(2), where xs = xs and k = k and tr = tr]
  have defined: "Resize E n v tr \<noteq> Undefined"
    using r unfolding v by (auto split: outcome.splits)
  have total: "nothrow_env E \<longrightarrow> (\<exists>v' tr'. Resize E n v tr = Return (v', tr'))"
    using r unfolding v by (cases "Resize E n (vec_of xs k) tr") auto
  have result: "Resize E n v tr = Return (v', tr') \<longrightarrow>
          Size v' = n
          \<and> (n < Size v \<longrightarrow>
               contents v' = take n (contents v) \<and> Capacity v' = Capacity v
               \<and> (\<exists>xs. contents v = map Some xs \<and> tr' = tr @ map Destroyed (drop n xs)))
          \<and> (Size v \<le> n \<longrightarrow>
               contents v' = contents v @ replicate (n - Size v) (Some (default_value E)))
          \<and> (Size v \<le> n \<longrightarrow> n \<le> Capacity v \<longrightarrow>
               Capacity v' = Capacity v
               \<and> tr' = tr @ replicate (n - Size v) (DefaultConstructed (default_value E)))"
  proof
    assume ret: "Resize E n v tr = Return (v', tr')"
    show "Size v' = n
          \<and> (n < Size v \<longrightarrow>
               contents v' = take n (contents v) \<and> Capacity v' = Capacity v
               \<and> (\<exists>xs. contents v = map Some xs \<and> tr' = tr @ map Destroyed (drop n xs)))
          \<and> (Size v \<le> n \<longrightarrow>
               contents v' = contents v @ replicate (n - Size v) (Some (default_value E)))
          \<and> (Size v \<le> n \<longrightarrow> n \<le> Capacity v \<longrightarrow>
               Capacity v' = Capacity v
               \<and> tr' = tr @ replicate (n - Size v) (DefaultConstructed (default_value E)))"
    proof (cases "n < length xs")
      case True
      with r ret have "v' = vec_of (take n xs) (length xs - n + k)"
        and "tr' = tr @ map Destroyed (drop n xs)"
        unfolding v by simp_all
      with True show ?thesis unfolding v by (auto simp: take_map min_def)
    next
      case False
      with r ret obtain j where v': "v' = vec_of (xs @ replicate (n - length xs) (default_value E)) j"
        unfolding v by auto
      have within: "n \<le> length xs + k \<longrightarrow>
          v' = vec_of (xs @ replicate (n - length xs) (default_value E)) (length xs + k - n)
          \<and> tr' = tr @ replicate (n - length xs) (DefaultConstructed (default_value E))"
        using r ret False unfolding v by simp
      have "Size v \<le> n \<longrightarrow> n \<le> Capacity v \<longrightarrow>
               Capacity v' = Capacity v
               \<and> tr' = tr @ replicate (n - Size v) (DefaultConstructed (default_value E))"
        using within False unfolding v by auto
      with v' False show ?thesis unfolding v by (simp add: map_replicate)
    qed
  qed
  from defined total result show ?thesis by blast
qed

lemma Resize_examples:
  "Resize int_env 1 (vec_of [1, 2, 3] 1) [] = Return (vec_of [1] 3, [Destroyed 2, Destroyed 3])
   \<and> Resize int_env 4 (vec_of [1, 2, 3] 2) []
       = Return (vec_of [1, 2, 3, 0] 1, [DefaultConstructed 0])
   \<and> Resize int_env 3 (vec_of [1, 2, 3] 2) [] = Return (vec_of [1, 2, 3] 2, [])
   \<and> Resize int_env 5 (vec_of [1, 2, 3] 1) []
       = Return (vec_of [1, 2, 3, 0, 0] 0,
           [Allocated 5, Moved 1, Moved 2, Moved 3, Destroyed 1, Destroyed 2, Destroyed 3,
            Deallocated [Raw, Raw, Raw, Raw], DefaultConstructed 0, DefaultConstructed 0])"
  by (simp add: model_defs)

lemma value_construct_loop_overrun:
  assumes "n \<noteq> 0" and "\<not> default_throws E tr" and "length m \<le> cur"
  shows "value_construct_loop E d cur n m tr = Undefined"
  using assms by (cases n) (simp_all add: construct_at_def)

lemma Reserve_wrapped:
  "Reserve int_env (2 ^ 62) Vector_default []
     = Return (\<lparr>vec_data = \<lparr>rm_buffer = Block [], rm_capacity = 2 ^ 62\<rparr>, vec_size = 0\<rparr>,
               [Allocated 0])"
proof -
  have s: "size_t (2 ^ 62 * sizeof_T int_env) = 0"
    by (simp add: size_t_def int_env_def)
  have c: "RawMemory_ctor int_env (2 ^ 62) []
      = Return (\<lparr>rm_buffer = Block [], rm_capacity = 2 ^ 62\<rparr>, [Allocated 0])"
    unfolding RawMemory_ctor_def Allocate_def operator_new_def s
    by (simp add: int_env_def)
  have n: "is_nothrow_move_constructible int_env" by (simp add: int_env_def)
  show ?thesis
    unfolding Reserve_def c
    by (simp add: n Vector_default_def RawMemory_default_def Capacity_def RawMemory_Capacity_def
        buffer_def with_buffer_def slots_def store_def relocate_n_def uninitialized_move_n_def
        replace_storage_def RawMemory_Swap_def RawMemory_dtor_def Deallocate_def
        operator_delete_def)
qed

text \<open>
  C6 does not hold for every \<open>n\<close>. \<^verbatim>\<open>Allocate\<close> multiplies \<open>n\<close> by \<^verbatim>\<open>sizeof(T)\<close> in
  \<^verbatim>\<open>size_t\<close>. For an element type of four bytes and \<open>n = 2 ^ 62\<close> the product is \<open>0\<close>
  modulo \<open>2 ^ 64\<close>: on an empty vector, \<^verbatim>\<open>Reserve\<close> inside \<^verbatim>\<open>Resize\<close> obtains a block
  of no bytes and records the capacity \<open>2 ^ 62\<close>, and
  \<^verbatim>\<open>uninitialized_value_construct_n\<close> then builds the first element past the end of
  that block. Nothing has thrown; the behaviour is undefined.
\<close>

theorem Resize_by_2_62_overruns:
  "Reserve int_env (2 ^ 62) Vector_default []
     = Return (\<lparr>vec_data = \<lparr>rm_buffer = Block [], rm_capacity = 2 ^ 62\<rparr>, vec_size = 0\<rparr>,
               [Allocated 0])
   \<and> Resize int_env (2 ^ 62) Vector_default [] = Undefined"
proof -
  have d: "\<not> default_throws int_env [Allocated 0]" by (simp add: int_env_def)
  have "value_construct_loop int_env 0 0 (2 ^ 62) [] [Allocated 0] = Undefined"
    by (rule value_construct_loop_overrun [OF _ d]) simp_all
  then have "Resize int_env (2 ^ 62) Vector_default [] = Undefined"
    unfolding Resize_def Reserve_wrapped
    by (simp add: Vector_default_def uninitialized_value_construct_n_def buffer_def rm_slots_def
        slots_def)
  with Reserve_wrapped show ?thesis by blast
qed

subsection \<open>C7: Reserve within the capacity\<close>

text \<open>
  C7. For every vector and every \<open>n\<close> that does not exceed its capacity, \<^verbatim>\<open>Reserve(n)\<close>
  returns and changes nothing: the vector (capacity, length and every slot) is the same
  and so is the history, so nothing was allocated.
\<close>

theorem Reserve_within_capacity_is_noop:
  "new_capacity \<le> Capacity v \<Longrightarrow> Reserve E new_capacity v tr = Return (v, tr)"
  by (simp add: Reserve_def)

theorem Reserve_within_capacity_is_noop_witness:
  "(3::nat) \<le> Capacity (vec_of [1, 2] 2)
   \<and> Reserve int_env 3 (vec_of [1, 2] 2) [] = Return (vec_of [1, 2] 2, [])"
  using Reserve_within_capacity_is_noop [of 3 "vec_of [1, 2] 2" int_env "[]"] by simp

subsection \<open>C8: copy assignment from a shorter vector\<close>



subsection \<open>C9: the invariant\<close>

text \<open>
  C9. Every vector that the public operations produce, from any arguments and whether they
  return or throw, has a length that exceeds neither its capacity nor the number of slots
  of its block, and the block has no more slots than the capacity says. Nothing is
  assumed of the requests for memory: the vector may have asked for a block whose size in
  bytes wrapped around, or have lost its block in the handler of \<^verbatim>\<open>Emplace\<close>.
\<close>

theorem reachable_size_le_capacity:
  assumes "reachable E v"
  shows "Size v \<le> Capacity v \<and> Size v \<le> length (buffer v) \<and> length (buffer v) \<le> Capacity v"
  using reachable_in_bounds [OF assms]
  by (simp add: in_bounds_def Size_def Capacity_def RawMemory_Capacity_def)

theorem reachable_size_le_capacity_witness:
  "reachable int_env (vec_of [1, 2] 0)
   \<and> Size (vec_of [1, 2 :: int] 0) \<le> Capacity (vec_of [1, 2 :: int] 0)
   \<and> Emplace int_env 0 (Other_args None) (vec_of [] 4) [Allocated 4]
       = Throw element_exn (\<lparr>vec_data = \<lparr>rm_buffer = Dangling, rm_capacity = 4\<rparr>, vec_size = 0\<rparr>,
           [Allocated 4, Deallocated [Raw, Raw, Raw, Raw]])
   \<and> reachable int_env \<lparr>vec_data = \<lparr>rm_buffer = Dangling, rm_capacity = 4\<rparr>, vec_size = 0\<rparr>
   \<and> Size \<lparr>vec_data = \<lparr>rm_buffer = Dangling :: int pointer, rm_capacity = 4\<rparr>, vec_size = 0\<rparr>
       \<le> length (buffer \<lparr>vec_data = \<lparr>rm_buffer = Dangling :: int pointer, rm_capacity = 4\<rparr>,
                          vec_size = 0\<rparr>)
   \<and> reachable int_env \<lparr>vec_data = \<lparr>rm_buffer = Block [], rm_capacity = 2 ^ 62\<rparr>, vec_size = 0\<rparr>
   \<and> length (buffer \<lparr>vec_data = \<lparr>rm_buffer = Block [] :: int pointer, rm_capacity = 2 ^ 62\<rparr>,
                      vec_size = 0\<rparr>)
       \<le> Capacity \<lparr>vec_data = \<lparr>rm_buffer = Block [] :: int pointer, rm_capacity = 2 ^ 62\<rparr>,
                    vec_size = 0\<rparr>"
proof -
  let ?d = "\<lparr>vec_data = \<lparr>rm_buffer = Dangling :: int pointer, rm_capacity = 4\<rparr>, vec_size = 0\<rparr>"
  let ?w = "\<lparr>vec_data = \<lparr>rm_buffer = Block [] :: int pointer, rm_capacity = 2 ^ 62\<rparr>, vec_size = 0\<rparr>"
  have "PushBack int_env (Copy_arg 1) Vector_default [] = Return (vec_of [1] 0, [Allocated 1, Copied 1])"
    by (simp add: model_defs)
  with by_default have r1: "reachable int_env (vec_of [1] 0)" by (rule by_PushBack)
  have "PushBack int_env (Copy_arg 2) (vec_of [1] 0) []
      = Return (vec_of [1, 2] 0, [Allocated 2, Copied 2, Moved 1, Destroyed 1, Deallocated [Raw]])"
    by (simp add: model_defs)
  with r1 have r2: "reachable int_env (vec_of [1, 2] 0)" by (rule by_PushBack)
  have "Reserve int_env 4 Vector_default [] = Return (vec_of [] 4, [Allocated 4])"
    by (simp add: model_defs)
  with by_default have r3: "reachable int_env (vec_of [] 4)" by (rule by_Reserve)
  have e: "Emplace int_env 0 (Other_args None) (vec_of [] 4) [Allocated 4]
      = Throw element_exn (?d, [Allocated 4, Deallocated [Raw, Raw, Raw, Raw]])"
    by (simp add: model_defs)
  with r3 have r4: "reachable int_env ?d" by (rule by_Emplace_throw)
  from by_default Reserve_wrapped have r5: "reachable int_env ?w" by (rule by_Reserve)
  from reachable_size_le_capacity [OF r2] reachable_size_le_capacity [OF r4]
    reachable_size_le_capacity [OF r5] r2 r4 r5 e
  show ?thesis by blast
qed

subsection \<open>C10: the iterator that Emplace returns\<close>

text \<open>
  Where the offset of the position fits into \<^verbatim>\<open>int\<close>, the call returns the position it
  was given, and the new element is there: for a well-formed vector with fewer than
  \<open>2 ^ 31\<close> elements and a position in \<open>[begin, end]\<close>.
\<close>

lemma Emplace_returns_position:
  assumes "wf v" and "pos \<le> Size v" and "Size v < 2 ^ 31"
    and "Emplace E pos a v tr = Return (it, v', tr')"
  shows "it = pos \<and> Size v' = Size v + 1
     \<and> (\<exists>xs x. contents v = map Some xs \<and> built a xs = Some x \<and> at v' it = Some x
          \<and> contents v' = map Some (take pos (after_construct E a xs) @ x
                                      # drop pos (after_construct E a xs)))"
proof -
  from assms(1) obtain xs k where v: "v = vec_of xs k" using wf_imp_vec_of by blast
  from assms(2,3) have le: "pos \<le> length xs" and lt: "length xs < 2 ^ 31" by (simp_all add: v)
  let ?ys = "after_construct E a xs"
  from Emplace_vec_bounded [OF le lt assms(4) [unfolded v]] obtain x j where
    it: "it = pos" and b: "built a xs = Some x" and v': "v' = vec_of (take pos ?ys @ x # drop pos ?ys) j"
    by blast
  have "length (take pos ?ys) = pos" using le by simp
  then have "(take pos ?ys @ x # drop pos ?ys) ! pos = x"
    using nth_append_length [of "take pos ?ys" x "drop pos ?ys"] by simp
  then have "at v' pos = Some x"
    using le by (simp add: v' at_vec_of)
  with it b v' le show ?thesis
    unfolding v by (auto simp: min_def)
qed

text \<open>
  C10 does not hold for every vector. On a vector of \<open>2 ^ 32\<close> elements with one spare slot,
  \<^verbatim>\<open>Emplace\<close> at \<^verbatim>\<open>end()\<close> builds the new element at index \<open>2 ^ 32\<close> and returns
  \<^verbatim>\<open>begin() + 0\<close>, where an old element is.
\<close>

theorem Emplace_returns_wrapped_offset:
  "Emplace int_env (2 ^ 32) (Copy_arg 7) (vec_of (replicate (2 ^ 32) 0) 1) []
     = Return (0, vec_of (replicate (2 ^ 32) 0 @ [7]) 0, [Copied 7])
   \<and> at (vec_of (replicate (2 ^ 32) 0 @ [7 :: int]) 0) 0 = Some 0
   \<and> at (vec_of (replicate (2 ^ 32) 0 @ [7 :: int]) 0) (2 ^ 32) = Some 7"
proof -
  let ?xs = "replicate (2 ^ 32) (0 :: int)"
  have l: "length ?xs = 2 ^ 32" by simp
  have "\<not> copy_throws int_env [] 7" by (simp add: int_env_def)
  from Emplace_try_end_copy [OF this, where xs = ?xs and j = 0 and p = 0]
  have t: "Emplace_try int_env (2 ^ 32) 0 (Copy_arg 7) (vec_of ?xs (Suc 0)) []
      = Return (map Live (?xs @ [7]) @ replicate 0 Raw, [] @ [Copied 7])"
    by simp
  have v: "(with_buffer (vec_of ?xs (Suc 0)) (map Live (?xs @ [7])))\<lparr>vec_size := 2 ^ 32 + 1\<rparr>
      = vec_of (?xs @ [7]) 0"
    by (simp add: with_buffer_def vec_of_def store_block_ptr)
  have "Emplace int_env (2 ^ 32) (Copy_arg 7) (vec_of ?xs 1) []
      = Return (0, vec_of (?xs @ [7]) 0, [Copied 7])"
    using t v by (simp add: Emplace_def Let_def to_int_def)
  moreover have "at (vec_of (?xs @ [7]) 0) 0 = Some 0"
    by (simp add: at_vec_of nth_append)
  moreover have "at (vec_of (?xs @ [7]) 0) (2 ^ 32) = Some 7"
    using nth_append_length [of ?xs 7 "[]"] by (simp add: at_vec_of del: nth_append_length)
  ultimately show ?thesis by simp
qed


end
